theory Spec2Isabelle
  imports Complex_Main "HOL-Library.Word" "HOL-Library.Multiset"
begin

section \<open>Memory and per-client state\<close>

text \<open>
  Both servers (\<^verbatim>\<open>zwocamServ.c\<close> for the ZWO camera and the Tau server) keep one
  \<^verbatim>\<open>client_info_t\<close> per connection.  Buffers obtained from \<^verbatim>\<open>cli_malloc\<close> live
  in a heap of blocks; a pointer is \<open>None\<close> for \<^verbatim>\<open>NULL\<close> and \<open>Some a\<close> for the block at
  address \<open>a\<close>.  \<^verbatim>\<open>free\<close> removes the block; what C leaves undefined (copying from
  \<^verbatim>\<open>NULL\<close>, reading past a block, freeing twice) is a \<open>fault\<close>.
\<close>

type_synonym byte = "8 word"
type_synonym addr = nat
type_synonym heap = "addr \<rightharpoonup> byte list"

datatype fault = NullCopy | BadCopy | BadFree | BadIndex | BadCast

record client_info =
  hostname :: "addr option"
  send_data :: int
  data_count :: int
  total_count :: int
  image_data :: "addr option"

definition SEND_BUF_SIZE :: int where
  "SEND_BUF_SIZE = 5000"

definition free_block :: "heap \<Rightarrow> addr \<Rightarrow> fault + heap" where
  "free_block h a = (if a \<in> dom h then Inr (h(a := None)) else Inl BadFree)"

text \<open>\<^verbatim>\<open>memcpy(buffer, base + off, cnt)\<close>: the bytes copied, or the fault.\<close>

definition memcpy_from :: "heap \<Rightarrow> addr option \<Rightarrow> int \<Rightarrow> int \<Rightarrow> fault + byte list" where
  "memcpy_from h base off cnt =
     (case base of
        None \<Rightarrow> Inl NullCopy
      | Some a \<Rightarrow>
          (case h a of
             None \<Rightarrow> Inl BadCopy
           | Some bs \<Rightarrow>
               if off < 0 \<or> cnt < 0 \<or> int (length bs) < off + cnt then Inl BadCopy
               else Inr (take (nat cnt) (drop (nat off) bs))))"

section \<open>The send-binary hook\<close>

text \<open>
  \<^verbatim>\<open>client_send_binary(client, buffer, len)\<close>, identical in both servers.  The result
  is the heap, the client record, the bytes copied into \<^verbatim>\<open>buffer\<close> by this call and
  the value of \<^verbatim>\<open>*len\<close> afterwards (the hook leaves \<^verbatim>\<open>*len\<close> alone when nothing is
  armed, so its previous value is an argument).
\<close>

definition client_send_binary ::
  "heap \<Rightarrow> client_info \<Rightarrow> int \<Rightarrow> fault + (heap \<times> client_info \<times> byte list \<times> int)" where
  "client_send_binary h cinfo len =
     (if send_data cinfo \<noteq> 0 then
        if data_count cinfo = total_count cinfo then
          (case image_data cinfo of
             None \<Rightarrow> Inr (h, cinfo\<lparr>send_data := 0, data_count := 0\<rparr>, [], 0)
           | Some a \<Rightarrow>
               (case free_block h a of
                  Inl e \<Rightarrow> Inl e
                | Inr h' \<Rightarrow>
                    Inr (h', cinfo\<lparr>send_data := 0, data_count := 0, image_data := None\<rparr>, [], 0)))
        else
          (let send_count = total_count cinfo - data_count cinfo;
               send_count = (if send_count > SEND_BUF_SIZE then SEND_BUF_SIZE else send_count)
           in case memcpy_from h (image_data cinfo) (data_count cinfo) send_count of
                Inl e \<Rightarrow> Inl e
              | Inr bs \<Rightarrow>
                  Inr (h, cinfo\<lparr>data_count := data_count cinfo + send_count\<rparr>, bs, send_count))
      else Inr (h, cinfo, [], len))"

text \<open>
  The tail of \<^verbatim>\<open>takeImage\<close> after the encoded file has been read back: the file's
  bytes are copied into a fresh block owned by the client and the stream is armed.
  \<^verbatim>\<open>total_count\<close> is an \<^verbatim>\<open>int\<close>; the file size is taken to fit.
\<close>

definition arm_stream :: "heap \<Rightarrow> client_info \<Rightarrow> addr \<Rightarrow> byte list \<Rightarrow> heap \<times> client_info" where
  "arm_stream h cinfo a file =
     (h(a \<mapsto> file),
      cinfo\<lparr>image_data := Some a, send_data := 1, data_count := 0,
            total_count := int (length file)\<rparr>)"

text \<open>
  Modelled from the spec: the connection server framework (\<^verbatim>\<open>sockio/sockserv\<close>) is not
  part of the sources.  The spec says the send hook is "invoked repeatedly by the
  Connection Server's event loop" and that a zero-length chunk ends the stream.
  \<open>stream_out\<close> calls the hook until it reports length 0 and records, for every call,
  the chunk delivered and the send cursor after the call.
\<close>

function stream_out ::
  "heap \<Rightarrow> client_info \<Rightarrow> fault + ((byte list \<times> int) list \<times> heap \<times> client_info)" where
  "stream_out h cinfo =
     (case client_send_binary h cinfo 0 of
        Inl e \<Rightarrow> Inl e
      | Inr (h', cinfo', chunk, len) \<Rightarrow>
          if len = 0 then Inr ([(chunk, data_count cinfo')], h', cinfo')
          else (case stream_out h' cinfo' of
                  Inl e \<Rightarrow> Inl e
                | Inr (evs, h'', cinfo'') \<Rightarrow> Inr ((chunk, data_count cinfo') # evs, h'', cinfo'')))"
  by pat_completeness auto
termination
proof (relation "measure (\<lambda>(h, c). nat (total_count c - data_count c))", goal_cases)
  case 1
  show ?case by simp
next
  case (2 h cinfo x h' y cinfo' z chunk len)
  then show ?case
    by (auto simp: client_send_binary_def memcpy_from_def Let_def SEND_BUF_SIZE_def
             split: if_splits option.splits sum.splits)
qed

section \<open>Streaming: the chunks delivered\<close>

lemma hook_unarmed:
  "send_data c = 0 \<Longrightarrow> client_send_binary h c n = Inr (h, c, [], n)"
  by (simp add: client_send_binary_def)

lemma hook_end:
  assumes "send_data c \<noteq> 0" "data_count c = total_count c"
    "image_data c = Some a" "h a = Some img"
  shows "client_send_binary h c n =
     Inr (h(a := None), c\<lparr>send_data := 0, data_count := 0, image_data := None\<rparr>, [], 0)"
  using assms by (simp add: client_send_binary_def free_block_def dom_def)

text \<open>The length of the next data chunk (a name for use in the proofs below).\<close>

definition next_count :: "client_info \<Rightarrow> int" where
  "next_count c = min (total_count c - data_count c) SEND_BUF_SIZE"

lemma hook_data:
  assumes "send_data c \<noteq> 0" "data_count c < total_count c" "0 \<le> data_count c"
    "image_data c = Some a" "h a = Some img" "total_count c = int (length img)"
  shows "client_send_binary h c n =
     Inr (h, c\<lparr>data_count := data_count c + next_count c\<rparr>,
          take (nat (next_count c)) (drop (nat (data_count c)) img), next_count c)"
  using assms
  by (auto simp: client_send_binary_def memcpy_from_def next_count_def Let_def
      SEND_BUF_SIZE_def min_def)

lemma stream_out_armed:
  assumes "send_data c \<noteq> 0" "image_data c = Some a" "h a = Some img"
    "total_count c = int (length img)" "0 \<le> data_count c" "data_count c \<le> total_count c"
  shows "\<exists>evs. stream_out h c =
            Inr (evs @ [([], 0)], h(a := None),
                 c\<lparr>send_data := 0, data_count := 0, image_data := None\<rparr>) \<and>
          concat (map fst evs) = drop (nat (data_count c)) img \<and>
          (\<forall>e\<in>set evs. 0 < length (fst e) \<and> int (length (fst e)) \<le> SEND_BUF_SIZE \<and>
                       snd e \<le> total_count c) \<and>
          sorted (data_count c # map snd evs)"
  using assms
proof (induction "nat (total_count c - data_count c)" arbitrary: c rule: less_induct)
  case less
  show ?case
  proof (cases "data_count c = total_count c")
    case True
    have "stream_out h c = Inr ([] @ [([], 0)], h(a := None),
                 c\<lparr>send_data := 0, data_count := 0, image_data := None\<rparr>)"
      using hook_end[of c a h img 0] less.prems(1,2,3) True by simp
    moreover have "drop (nat (data_count c)) img = []"
      using True less.prems(4) by simp
    ultimately show ?thesis by (intro exI[of _ "[]"]) simp
  next
    case False
    then have lt: "data_count c < total_count c" using less.prems(6) by simp
    define k where "k = next_count c"
    define c1 where "c1 = c\<lparr>data_count := data_count c + k\<rparr>"
    define ch where "ch = take (nat k) (drop (nat (data_count c)) img)"
    have kpos: "0 < k" "k \<le> SEND_BUF_SIZE" "k \<le> total_count c - data_count c"
      using lt by (auto simp: k_def next_count_def SEND_BUF_SIZE_def)
    have step: "client_send_binary h c 0 = Inr (h, c1, ch, k)"
      using hook_data[of c a h img 0] less.prems lt
      by (simp add: c1_def ch_def k_def)
    have chlen: "int (length ch) = k"
      using kpos less.prems(4,5) by (simp add: ch_def)
    have m: "nat (total_count c1 - data_count c1) < nat (total_count c - data_count c)"
      using kpos by (simp add: c1_def)
    have p: "send_data c1 \<noteq> 0" "image_data c1 = Some a" "total_count c1 = int (length img)"
      "0 \<le> data_count c1" "data_count c1 \<le> total_count c1"
      using less.prems kpos by (simp_all add: c1_def)
    from less.hyps[of c1] m p less.prems(3)
    obtain evs where ih:
      "stream_out h c1 = Inr (evs @ [([], 0)], h(a := None),
                 c1\<lparr>send_data := 0, data_count := 0, image_data := None\<rparr>)"
      "concat (map fst evs) = drop (nat (data_count c1)) img"
      "\<forall>e\<in>set evs. 0 < length (fst e) \<and> int (length (fst e)) \<le> SEND_BUF_SIZE \<and>
                       snd e \<le> total_count c1"
      "sorted (data_count c1 # map snd evs)"
      by blast
    have fin: "c1\<lparr>send_data := 0, data_count := 0, image_data := None\<rparr> =
               c\<lparr>send_data := 0, data_count := 0, image_data := None\<rparr>"
      by (simp add: c1_def)
    have so: "stream_out h c = Inr (((ch, data_count c1) # evs) @ [([], 0)], h(a := None),
                 c\<lparr>send_data := 0, data_count := 0, image_data := None\<rparr>)"
      using step ih(1) kpos(1) fin by simp
    have dc1: "nat (data_count c1) = nat (data_count c) + nat k"
      using kpos less.prems(5) by (simp add: c1_def nat_add_distrib)
    have cc: "concat (map fst ((ch, data_count c1) # evs)) = drop (nat (data_count c)) img"
      using ih(2) by (simp add: ch_def dc1 add.commute[of "nat (data_count c)"] flip: drop_drop)
    have b: "\<forall>e\<in>set ((ch, data_count c1) # evs). 0 < length (fst e) \<and>
               int (length (fst e)) \<le> SEND_BUF_SIZE \<and> snd e \<le> total_count c"
      using ih(3) chlen kpos p(5) by (auto simp: c1_def)
    have s: "sorted (data_count c # map snd ((ch, data_count c1) # evs))"
      using ih(4) kpos(1) by (auto simp: c1_def)
    show ?thesis using so cc b s by blast
  qed
qed

text \<open>
  Claim C1.  After \<^verbatim>\<open>takeImage\<close> has armed a stream for an encoded image of
  \<open>L\<close> bytes, calling the send-binary hook until it reports length 0 succeeds without
  a fault and yields data chunks \<open>evs\<close> followed by exactly one zero-length chunk:
  every data chunk is non-empty and at most 5000 bytes long, the chunk lengths add up to
  \<open>L\<close>, the chunks concatenated are the image itself (each byte once, in order), the
  cursor values after the data chunks are non-decreasing from 0 and never exceed \<open>L\<close>,
  and at the end the stream is disarmed, the image pointer is \<^verbatim>\<open>NULL\<close>, its block is
  freed, and any further call of the hook reports nothing.  (With the stream disarmed
  the hook also sets the cursor back to 0.)
\<close>

theorem send_binary_delivers_image:
  "\<exists>evs h' c'.
     stream_out (fst (arm_stream h0 c0 a fdata)) (snd (arm_stream h0 c0 a fdata)) =
       Inr (evs @ [([], 0)], h', c') \<and>
     (\<forall>e\<in>set evs. 0 < length (fst e) \<and> int (length (fst e)) \<le> 5000 \<and> snd e \<le> int (length fdata)) \<and>
     sum_list (map (\<lambda>e. length (fst e)) evs) = length fdata \<and>
     concat (map fst evs) = fdata \<and>
     sorted (0 # map snd evs) \<and>
     send_data c' = 0 \<and> image_data c' = None \<and> h' a = None \<and>
     (\<forall>n. client_send_binary h' c' n = Inr (h', c', [], n))"
proof -
  define h where "h = fst (arm_stream h0 c0 a fdata)"
  define c where "c = snd (arm_stream h0 c0 a fdata)"
  have pre: "send_data c \<noteq> 0" "image_data c = Some a" "h a = Some fdata"
    "total_count c = int (length fdata)" "0 \<le> data_count c" "data_count c \<le> total_count c"
    "data_count c = 0"
    by (simp_all add: h_def c_def arm_stream_def)
  from stream_out_armed[of c a h fdata] pre obtain evs where r:
    "stream_out h c = Inr (evs @ [([], 0)], h(a := None),
                 c\<lparr>send_data := 0, data_count := 0, image_data := None\<rparr>)"
    "concat (map fst evs) = fdata"
    "\<forall>e\<in>set evs. 0 < length (fst e) \<and> int (length (fst e)) \<le> SEND_BUF_SIZE \<and>
                       snd e \<le> total_count c"
    "sorted (0 # map snd evs)"
    by auto
  have "length (concat (map fst evs)) = length fdata" using r(2) by simp
  then have sum: "sum_list (map (\<lambda>e. length (fst e)) evs) = length fdata"
    by (simp add: length_concat comp_def)
  have after: "\<forall>n. client_send_binary (h(a := None))
      (c\<lparr>send_data := 0, data_count := 0, image_data := None\<rparr>) n =
      Inr (h(a := None), c\<lparr>send_data := 0, data_count := 0, image_data := None\<rparr>, [], n)"
    by (simp add: hook_unarmed)
  show ?thesis
    unfolding h_def[symmetric] c_def[symmetric]
    using r sum after pre(4) by (auto simp: SEND_BUF_SIZE_def)
qed

theorem send_binary_delivers_image_witness:
  "\<exists>evs h' c'.
     stream_out (fst (arm_stream Map.empty
        \<lparr>hostname = None, send_data = 0, data_count = 0, total_count = 0, image_data = None\<rparr>
        1 [10, 20, 30]))
       (snd (arm_stream Map.empty
        \<lparr>hostname = None, send_data = 0, data_count = 0, total_count = 0, image_data = None\<rparr>
        1 [10, 20, 30])) = Inr (evs @ [([], 0)], h', c') \<and>
     evs \<noteq> [] \<and>
     (\<forall>e\<in>set evs. 0 < length (fst e) \<and> int (length (fst e)) \<le> 5000 \<and> snd e \<le> 3) \<and>
     concat (map fst evs) = [10, 20, 30] \<and> image_data c' = None"
  using send_binary_delivers_image[of Map.empty
        "\<lparr>hostname = None, send_data = 0, data_count = 0, total_count = 0, image_data = None\<rparr>"
        1 "[10, 20, 30]"]
  by fastforce

section \<open>Disconnecting a client\<close>

text \<open>
  \<^verbatim>\<open>client_del\<close>.  The client structure itself is a heap block at address \<open>p\<close>.
  The ZWO server frees the host name and the structure; the Tau server frees the
  host name, the image buffer and the structure.
\<close>

definition free_opt :: "heap \<Rightarrow> addr option \<Rightarrow> fault + heap" where
  "free_opt h p = (case p of None \<Rightarrow> Inr h | Some a \<Rightarrow> free_block h a)"

definition zwo_client_del :: "heap \<Rightarrow> addr \<Rightarrow> client_info \<Rightarrow> fault + heap" where
  "zwo_client_del h p cinfo =
     (case free_opt h (hostname cinfo) of
        Inl e \<Rightarrow> Inl e
      | Inr h1 \<Rightarrow> free_block h1 p)"

definition tau_client_del :: "heap \<Rightarrow> addr \<Rightarrow> client_info \<Rightarrow> fault + heap" where
  "tau_client_del h p cinfo =
     (case free_opt h (hostname cinfo) of
        Inl e \<Rightarrow> Inl e
      | Inr h1 \<Rightarrow>
          (case free_opt h1 (image_data cinfo) of
             Inl e \<Rightarrow> Inl e
           | Inr h2 \<Rightarrow> free_block h2 p))"

text \<open>The blocks a connection owns: its structure, its host name, its image buffer.\<close>

definition owned :: "addr \<Rightarrow> client_info \<Rightarrow> addr set" where
  "owned p cinfo = {p} \<union> set_option (hostname cinfo) \<union> set_option (image_data cinfo)"

text \<open>
  Claim C9 on the ZWO server.  A client with host name at address 1, a pending encoded
  image of three bytes at address 2 (armed, nothing streamed yet) and its structure at
  address 3 disconnects: the host name and the structure are freed, the image block
  stays allocated and nothing refers to it any more.
\<close>

theorem zwo_client_del_keeps_image:
  "zwo_client_del [1 \<mapsto> [104, 111], 2 \<mapsto> [83, 73, 77], 3 \<mapsto> []] 3
      \<lparr>hostname = Some 1, send_data = 1, data_count = 0, total_count = 3, image_data = Some 2\<rparr>
     = Inr [2 \<mapsto> [83, 73, 77]]"
  by (auto simp: zwo_client_del_def free_opt_def free_block_def)

text \<open>
  On the Tau server the hook releases every block the connection owns: for distinct,
  allocated blocks the heap afterwards is the old one without them.
\<close>

theorem tau_client_del_releases:
  assumes "owned p cinfo \<subseteq> dom h"
    and "hostname cinfo \<noteq> Some p" "image_data cinfo \<noteq> Some p"
    and "hostname cinfo = None \<or> hostname cinfo \<noteq> image_data cinfo"
  shows "\<exists>h'. tau_client_del h p cinfo = Inr h' \<and> dom h' = dom h - owned p cinfo"
  using assms
  by (cases "hostname cinfo"; cases "image_data cinfo")
     (auto simp: tau_client_del_def free_opt_def free_block_def owned_def)

theorem tau_client_del_releases_witness:
  "\<exists>h'. tau_client_del [1 \<mapsto> [104, 111], 2 \<mapsto> [83, 73, 77], 3 \<mapsto> []] 3
      \<lparr>hostname = Some 1, send_data = 1, data_count = 0, total_count = 3, image_data = Some 2\<rparr>
     = Inr h' \<and> dom h' = {}"
  using tau_client_del_releases[of 3
      "\<lparr>hostname = Some 1, send_data = 1, data_count = 0, total_count = 3, image_data = Some 2\<rparr>"
      "[1 \<mapsto> [104, 111], 2 \<mapsto> [83, 73, 77], 3 \<mapsto> []]"]
  by (auto simp: owned_def)

section \<open>Bias correction of the stacked image\<close>

text \<open>
  The loops of \<^verbatim>\<open>writeFITSImage\<close> (Tau server) that run under the mutex: the minimum
  search starts from 65535, then every accumulated value has the minimum subtracted and
  is stored as an \<^verbatim>\<open>unsigned short\<close>, 65535 when the difference is larger.  The
  accumulator holds C \<^verbatim>\<open>int\<close>s; for the non-negative contents considered here no
  subtraction leaves the \<^verbatim>\<open>int\<close> range.  \<^verbatim>\<open>takeImage\<close> of \<^verbatim>\<open>taucamLocal.cc\<close> has the
  same loops with the difference scaled by 0.4 before it is stored (for a difference
  \<open>d\<close> between 0 and 65535 the stored value is \<open>2 * d div 5\<close>).
\<close>

type_synonym pixel = "16 word"

definition find_min_val :: "int list \<Rightarrow> int" where
  "find_min_val stack = fold (\<lambda>x min_val. if x < min_val then x else min_val) stack 65535"

definition adjust_pixel :: "int \<Rightarrow> int \<Rightarrow> pixel" where
  "adjust_pixel min_val x = (if x - min_val > 65535 then 65535 else word_of_int (x - min_val))"

definition bias_correct :: "int list \<Rightarrow> pixel list" where
  "bias_correct stack = map (adjust_pixel (find_min_val stack)) stack"

definition adjust_pixel_local :: "int \<Rightarrow> int \<Rightarrow> pixel" where
  "adjust_pixel_local min_val x =
     (if x - min_val > 65535 then 65535 else word_of_int ((2 * (x - min_val)) div 5))"

definition bias_correct_local :: "int list \<Rightarrow> pixel list" where
  "bias_correct_local stack = map (adjust_pixel_local (find_min_val stack)) stack"

lemma fold_min: "fold (\<lambda>x m. if x < m then x else m) xs (a::int) = Min (insert a (set xs))"
proof (induction xs arbitrary: a)
  case Nil then show ?case by simp
next
  case (Cons x xs)
  have "Min (insert (if x < a then x else a) (set xs)) = Min (insert a (insert x (set xs)))"
    by (cases "set xs = {}") (auto simp: Min_insert2 min_def Min.insert_remove intro!: antisym)
  then show ?case using Cons by simp
qed

lemma find_min_val_eq: "find_min_val stack = Min (insert 65535 (set stack))"
  by (simp add: find_min_val_def fold_min)

text \<open>
  Claim C5.  With every accumulated value above 65535 the search keeps its starting
  value 65535, which is not the minimum of the buffer, and no output pixel is 0:
  the accumulator \<open>[70000, 80000]\<close> gives \<open>[4465, 14465]\<close>, and in the scaled variant
  \<open>[131070, 131070]\<close> gives \<open>[26214, 26214]\<close>.
\<close>

theorem bias_correct_minimum_not_zero:
  "bias_correct [70000, 80000] = [4465, 14465] \<and>
   bias_correct_local [131070, 131070] = [26214, 26214]"
  by (simp add: bias_correct_def bias_correct_local_def find_min_val_def adjust_pixel_def
      adjust_pixel_local_def)

text \<open>
  When at least one accumulated value is at most 65535 (and none is negative) the search
  does find the minimum, and the output buffer contains the pixel value 0, the least
  value an unsigned pixel can have.
\<close>

theorem bias_correct_minimum_zero:
  assumes "\<forall>x\<in>set stack. 0 \<le> x" "\<exists>x\<in>set stack. x \<le> 65535"
  shows "0 \<in> set (bias_correct stack)"
proof -
  let ?m = "find_min_val stack"
  have "?m \<in> insert 65535 (set stack)" unfolding find_min_val_eq by (rule Min_in) auto
  moreover obtain x where "x \<in> set stack" "x \<le> 65535" using assms(2) by auto
  moreover have "?m \<le> x" unfolding find_min_val_eq using \<open>x \<in> set stack\<close> by (intro Min_le) auto
  ultimately have "?m \<in> set stack"
    by (cases "?m = 65535") auto
  then have "adjust_pixel ?m ?m \<in> set (bias_correct stack)"
    unfolding bias_correct_def by simp
  then show ?thesis by (simp add: adjust_pixel_def)
qed

theorem bias_correct_minimum_zero_witness:
  "0 \<in> set (bias_correct [300, 70000, 120])"
  using bias_correct_minimum_zero[of "[300, 70000, 120]"] by simp

section \<open>The C library functions the servers call\<close>

text \<open>
  Characters are bytes; \<^verbatim>\<open>toupper\<close>, \<^verbatim>\<open>tolower\<close> and \<^verbatim>\<open>isspace\<close> are those of the C
  locale.  \<^verbatim>\<open>strcasecmp\<close> is modelled by the comparison it makes for equality.
\<close>

definition c_toupper :: "char \<Rightarrow> char" where
  "c_toupper c =
     (case map_of (zip ''abcdefghijklmnopqrstuvwxyz'' ''ABCDEFGHIJKLMNOPQRSTUVWXYZ'') c of
        Some u \<Rightarrow> u | None \<Rightarrow> c)"

definition c_tolower :: "char \<Rightarrow> char" where
  "c_tolower c =
     (case map_of (zip ''ABCDEFGHIJKLMNOPQRSTUVWXYZ'' ''abcdefghijklmnopqrstuvwxyz'') c of
        Some l \<Rightarrow> l | None \<Rightarrow> c)"

definition c_isspace :: "char \<Rightarrow> bool" where
  "c_isspace c = (let n = (of_char c :: nat) in n = 32 \<or> (9 \<le> n \<and> n \<le> 13))"

definition strcasecmp_eq :: "string \<Rightarrow> string \<Rightarrow> bool" where
  "strcasecmp_eq a b = (map c_tolower a = map c_tolower b)"

text \<open>
  \<^verbatim>\<open>sprintf\<close> with \<^verbatim>\<open>%d\<close> and with \<^verbatim>\<open>%.3f\<close>, \<^verbatim>\<open>%.4f\<close>: decimal digits, a minus sign for
  negative values, and for the fixed-point formats rounding to the nearest multiple of
  the last place, a tie to the even neighbour.
\<close>

definition digit_char :: "int \<Rightarrow> char" where
  "digit_char d = ''0123456789'' ! nat d"

function show_dec :: "int \<Rightarrow> string" where
  "show_dec n = (if n < 10 then [digit_char n] else show_dec (n div 10) @ [digit_char (n mod 10)])"
  by pat_completeness auto
termination
  by (relation "measure nat") auto

definition show_int :: "int \<Rightarrow> string" where
  "show_int i = (if i < 0 then CHR ''-'' # show_dec (- i) else show_dec i)"

fun pad_digits :: "nat \<Rightarrow> int \<Rightarrow> string" where
  "pad_digits 0 n = []"
| "pad_digits (Suc k) n = pad_digits k (n div 10) @ [digit_char (n mod 10)]"

definition round_half_even :: "rat \<Rightarrow> int" where
  "round_half_even x =
     (let f = \<lfloor>x\<rfloor>; r = x - of_int f
      in if r < 1 / 2 then f else if 1 / 2 < r then f + 1 else if even f then f else f + 1)"

definition printf_f :: "nat \<Rightarrow> rat \<Rightarrow> string" where
  "printf_f d x =
     (let t = \<bar>round_half_even (x * 10 ^ d)\<bar>
      in (if x < 0 then ''-'' else []) @ show_dec (t div 10 ^ d) @ ''.'' @
         pad_digits d (t mod 10 ^ d))"

text \<open>A diagnostic between double quotes, as the \<^verbatim>\<open>sprintf\<close> formats write it.\<close>

definition quoted :: "string \<Rightarrow> string" where
  "quoted s = CHR 0x22 # s @ [CHR 0x22]"

section \<open>Double-precision arithmetic\<close>

text \<open>
  Exposure times are C \<^verbatim>\<open>double\<close>s, IEEE 754 binary64 values computed in that format (as
  on x86-64).  A \<open>double\<close> is a finite value, an infinity or a NaN (for the last two
  \<open>True\<close> is a set sign bit); the sign of a zero is not modelled, the servers print or
  divide by no zero they have computed.  \<open>fl\<close> is the rounding of the arithmetic, to the
  nearest value with a 53-bit significand (to the even one at a tie), with gradual
  underflow below \<open>2\<^sup>-\<^sup>1\<^sup>0\<^sup>2\<^sup>2\<close> and overflow to an infinity; a literal of the source
  such as \<^verbatim>\<open>0.001\<close> is \<open>fl (1 / 1000)\<close>.  Each operation is the exact operation followed
  by \<open>fl\<close>; a NaN operand is passed on, and a NaN that an operation makes out of other
  operands has its sign bit set.
\<close>

datatype double = Fin rat | Inf bool | NaN bool

function bits :: "int \<Rightarrow> int" where
  "bits n = (if n \<le> 0 then 0 else 1 + bits (n div 2))"
  by pat_completeness auto
termination
  by (relation "measure nat") auto

function two_to :: "int \<Rightarrow> rat" where
  "two_to n = (if n \<le> 0 then 1
               else if even n then (let h = two_to (n div 2) in h * h)
               else (let h = two_to (n div 2) in 2 * (h * h)))"
  by pat_completeness auto
termination
  by (relation "measure nat") auto

declare bits.simps [simp del] two_to.simps [simp del]

definition pow2 :: "int \<Rightarrow> rat" where
  "pow2 e = (if 0 \<le> e then two_to e else 1 / two_to (- e))"

definition exponent :: "rat \<Rightarrow> int" where
  "exponent x =
     (let (p, q) = quotient_of \<bar>x\<bar>;
          e = bits p - bits q - 53
      in if pow2 (e + 53) \<le> \<bar>x\<bar> then e + 1 else e)"

definition fl :: "rat \<Rightarrow> double" where
  "fl x =
     (if x = 0 then Fin 0
      else (let e = max (exponent x) (- 1074);
                y = of_int (round_half_even (x / pow2 e)) * pow2 e
            in if pow2 1024 \<le> \<bar>y\<bar> then Inf (x < 0) else Fin y))"



fun dadd :: "double \<Rightarrow> double \<Rightarrow> double" where
  "dadd (Fin a) (Fin b) = fl (a + b)"
| "dadd (NaN s) y = NaN s"
| "dadd (Fin a) (NaN s) = NaN s"
| "dadd (Inf t) (NaN s) = NaN s"
| "dadd (Inf s) (Inf t) = (if s = t then Inf s else NaN True)"
| "dadd (Inf s) (Fin b) = Inf s"
| "dadd (Fin a) (Inf s) = Inf s"




text \<open>The comparisons; one with a NaN is false, \<^verbatim>\<open>!=\<close> with a NaN is true.\<close>

fun dlt :: "double \<Rightarrow> double \<Rightarrow> bool" where
  "dlt (Fin a) (Fin b) = (a < b)"
| "dlt (NaN s) y = False"
| "dlt (Fin a) (NaN s) = False"
| "dlt (Inf t) (NaN s) = False"
| "dlt (Inf s) (Inf t) = (s \<and> \<not> t)"
| "dlt (Inf s) (Fin b) = s"
| "dlt (Fin a) (Inf s) = (\<not> s)"

definition dgt :: "double \<Rightarrow> double \<Rightarrow> bool" where
  "dgt x y = dlt y x"


text \<open>
  The conversion of an \<^verbatim>\<open>int\<close> to a \<^verbatim>\<open>double\<close>, exact since every \<^verbatim>\<open>int\<close> of 32
  bits is a \<^verbatim>\<open>double\<close>, and the cast \<^verbatim>\<open>(int)x\<close> of a
  \<^verbatim>\<open>double\<close>: truncation towards zero, undefined when the value is not finite or the
  result does not fit.
\<close>

definition d_of_int :: "int \<Rightarrow> double" where
  "d_of_int i = Fin (of_int i)"


text \<open>\<^verbatim>\<open>printf\<close> of a \<^verbatim>\<open>double\<close> with \<^verbatim>\<open>%.3f\<close> or \<^verbatim>\<open>%.4f\<close>.\<close>

fun printf_d :: "nat \<Rightarrow> double \<Rightarrow> string" where
  "printf_d d (Fin x) = printf_f d x"
| "printf_d d (Inf s) = (if s then ''-inf'' else ''inf'')"
| "printf_d d (NaN s) = (if s then ''-nan'' else ''nan'')"


lemma two_to_power: "two_to n = 2 ^ nat n"
proof (induction n rule: two_to.induct)
  case (1 n)
  show ?case
  proof (cases "n \<le> 0")
    case True
    then show ?thesis by (subst two_to.simps) simp
  next
    case False
    have ih: "two_to (n div 2) = 2 ^ nat (n div 2)"
      using 1 False by (cases "even n") simp_all
    show ?thesis
    proof (cases "even n")
      case True
      then have "nat n = nat (n div 2) + nat (n div 2)" using False by (auto elim!: evenE)
      then have "(2::rat) ^ nat n = 2 ^ nat (n div 2) * 2 ^ nat (n div 2)"
        by (metis power_add)
      then show ?thesis using False True ih by (subst two_to.simps) (simp add: Let_def)
    next
      case odd: False
      then have "nat n = Suc (nat (n div 2) + nat (n div 2))" using False by (auto elim!: oddE)
      then have "(2::rat) ^ nat n = 2 * (2 ^ nat (n div 2) * 2 ^ nat (n div 2))"
        by (metis power_Suc power_add)
      then show ?thesis using False odd ih by (subst two_to.simps) (simp add: Let_def)
    qed
  qed
qed

lemma pow2_powi: "pow2 e = 2 powi e"
  by (simp add: pow2_def two_to_power power_int_def inverse_eq_divide power_one_over)



lemma pow2_mono: "a \<le> b \<Longrightarrow> pow2 a \<le> pow2 b"
  by (simp add: pow2_powi power_int_increasing)










text \<open>The rounding at a third and at two ties above \<open>2\<^sup>5\<^sup>3\<close>.\<close>

lemma fl_examples:
  "fl (1 / 3) = Fin (6004799503160661 / 18014398509481984)"
  "fl 9007199254740993 = Fin 9007199254740992"
  "fl 9007199254740995 = Fin 9007199254740996"
  by code_simp+

text \<open>Some values as \<^verbatim>\<open>printf\<close> writes them.\<close>

lemma printf_examples:
  "printf_f 3 (5 / 2) = ''2.500''" "printf_f 4 (5 / 2) = ''2.5000''"
  "printf_f 3 1 = ''1.000''" "printf_f 4 1 = ''1.0000''"
  by code_simp+

section \<open>The registry\<close>

text \<open>
  The status server behind \<^verbatim>\<open>ssPutString\<close> and \<^verbatim>\<open>ssPutPrintf\<close> (formatted first): a
  table from paths to strings.  A put fails when the connection is down; the
  servers log the failure and go on.
\<close>

record registry =
  connected :: bool
  entries :: "string \<rightharpoonup> string"

definition ssPutString :: "registry \<Rightarrow> string \<Rightarrow> string \<Rightarrow> bool \<times> registry" where
  "ssPutString reg path v =
     (if connected reg then (True, reg\<lparr>entries := (entries reg)(path \<mapsto> v)\<rparr>) else (False, reg))"

section \<open>The ZWO server's commands\<close>

text \<open>
  The fields of \<^verbatim>\<open>server_info_t\<close> the commands use.  \<^verbatim>\<open>com_etime\<close> receives what
  \<^verbatim>\<open>atof\<close> and \<^verbatim>\<open>atoi\<close> read from its argument: plain seconds, or minutes and
  seconds when the argument has a colon.  \<^verbatim>\<open>com_gain\<close> receives what \<^verbatim>\<open>atoi\<close> reads.
\<close>

record zwo_server_info =
  zwo_etime :: double
  zwo_gain :: int

definition ZWO_SS_GAIN :: string where "ZWO_SS_GAIN = ''/i/dualcam/visible/gain''"
definition MIN_GAIN :: int where "MIN_GAIN = 0"
definition MAX_GAIN :: int where "MAX_GAIN = 510"





definition com_gain ::
  "zwo_server_info \<Rightarrow> registry \<Rightarrow> int \<Rightarrow> zwo_server_info \<times> registry \<times> string" where
  "com_gain si reg gain =
     (if gain < MIN_GAIN \<or> gain > MAX_GAIN
      then (si, reg, ''! gain '' @ quoted ''invalid value'')
      else (let si' = si\<lparr>zwo_gain := gain\<rparr>
            in (si', snd (ssPutString reg ZWO_SS_GAIN (show_int (zwo_gain si'))),
                ''. gain '' @ show_int (zwo_gain si'))))"

section \<open>The Tau server's state and commands\<close>

text \<open>
  \<^verbatim>\<open>server_info_t\<close> of the Tau server; \<open>tgr_gain_mode\<close> is the gain mode last handed to
  the camera (\<^verbatim>\<open>tgr->setGainMode\<close>).  \<^verbatim>\<open>client_recv\<close> is split in two: \<open>tau_route\<close>
  decides which branch handles a line, \<open>tau_etime\<close> and \<open>tau_gain\<close> are the branches
  for \<^verbatim>\<open>ETIME\<close> and \<^verbatim>\<open>GAIN\<close> with arguments.  \<^verbatim>\<open>cli_argv_quoted\<close> (the argument
  splitter of the command library) and \<^verbatim>\<open>strtod\<close> are parameters; \<open>strtod\<close> gives
  \<open>None\<close> where the server's check of \<^verbatim>\<open>errno\<close> and of the end pointer refuses the
  argument, and otherwise the \<^verbatim>\<open>double\<close> read, which can be an infinity or a NaN
  (\<^verbatim>\<open>strtod\<close> reads \<^verbatim>\<open>inf\<close> and \<^verbatim>\<open>nan\<close>).  Time stamps are finite \<^verbatim>\<open>double\<close>s and
  are modelled by their values.
\<close>

datatype gain_t = GAIN_AUTO | GAIN_HIGH | GAIN_LOW | GAIN_MANUAL

record tau_server_info =
  tgr_gain_mode :: "gain_t option"
  gain :: gain_t
  etime :: double
  width :: nat
  height :: nat
  stack_data :: "int list option"
  frame_count :: "32 word"
  exp_start_ts :: rat

definition IMAGE_CMD :: string where "IMAGE_CMD = ''IMAGE''"
definition ETIME_CMD :: string where "ETIME_CMD = ''ETIME''"
definition GAIN_CMD :: string where "GAIN_CMD = ''GAIN''"
definition QUIT_CMD :: string where "QUIT_CMD = ''QUIT''"
definition BYE_CMD :: string where "BYE_CMD = ''BYE''"
definition EXIT_CMD :: string where "EXIT_CMD = ''EXIT''"
definition LOGOUT_CMD :: string where "LOGOUT_CMD = ''LOGOUT''"
definition TAU_SS_ETIME :: string where "TAU_SS_ETIME = ''/i/dualcam/IR/etime''"
definition TAU_SS_GAIN :: string where "TAU_SS_GAIN = ''/i/dualcam/IR/gain''"
definition MIN_ETIME :: double where "MIN_ETIME = fl (1 / 10)"
definition MAX_ETIME :: double where "MAX_ETIME = d_of_int 600"

definition fail_reply :: "string \<Rightarrow> string \<Rightarrow> string" where
  "fail_reply cmd msg = ''! '' @ cmd @ '' '' @ quoted msg"

definition syntax_error :: string where
  "syntax_error = ''! '' @ quoted ''Syntax error''"

definition ltrim :: "string \<Rightarrow> string" where
  "ltrim str = dropWhile c_isspace str"

definition rtrim :: "string \<Rightarrow> string" where
  "rtrim str = rev (dropWhile c_isspace (rev str))"

definition trim :: "string \<Rightarrow> string" where
  "trim str = rtrim (ltrim str)"

definition gain_string :: "gain_t \<Rightarrow> string" where
  "gain_string g = (case g of GAIN_AUTO \<Rightarrow> ''AUTO'' | GAIN_LOW \<Rightarrow> ''LOW''
                    | GAIN_HIGH \<Rightarrow> ''HIGH'' | GAIN_MANUAL \<Rightarrow> ''MANUAL'')"

definition applyGain :: "tau_server_info \<Rightarrow> registry \<Rightarrow> gain_t \<Rightarrow> tau_server_info \<times> registry" where
  "applyGain si reg g =
     (si\<lparr>tgr_gain_mode := Some g\<rparr>, snd (ssPutString reg TAU_SS_GAIN (gain_string g)))"

datatype tau_request =
    Disconnect | TakeImage | Reply string | EtimeArgs "string list" | GainArgs "string list"

definition tau_route :: "(string \<Rightarrow> string list) \<Rightarrow> string \<Rightarrow> tau_request" where
  "tau_route cli_argv_quoted buffer =
     (let buf_p = trim buffer
      in if CHR '' '' \<notin> set buf_p then
           if strcasecmp_eq buf_p QUIT_CMD \<or> strcasecmp_eq buf_p BYE_CMD \<or>
              strcasecmp_eq buf_p EXIT_CMD \<or> strcasecmp_eq buf_p LOGOUT_CMD then Disconnect
           else if strcasecmp_eq buf_p IMAGE_CMD then TakeImage
           else if strcasecmp_eq buf_p ETIME_CMD then Reply (fail_reply ETIME_CMD ''Argument not specified'')
           else if strcasecmp_eq buf_p GAIN_CMD then Reply (fail_reply GAIN_CMD ''Argument not specified'')
           else Reply syntax_error
         else
           (let cmd = takeWhile (\<lambda>c. c \<noteq> CHR '' '') buf_p;
                cargv = cli_argv_quoted (tl (dropWhile (\<lambda>c. c \<noteq> CHR '' '') buf_p))
            in if strcasecmp_eq cmd ETIME_CMD then EtimeArgs cargv
               else if strcasecmp_eq cmd GAIN_CMD then GainArgs cargv
               else Reply syntax_error))"

definition tau_etime ::
  "(string \<Rightarrow> double option) \<Rightarrow> tau_server_info \<Rightarrow> heap \<Rightarrow> client_info \<Rightarrow> registry \<Rightarrow> string list \<Rightarrow>
     fault + (tau_server_info \<times> heap \<times> client_info \<times> registry \<times> string)" where
  "tau_etime strtod si h cinfo reg cargv =
     (if length cargv \<noteq> 1 then Inr (si, h, cinfo, reg, fail_reply ETIME_CMD ''Invalid argument specified'')
      else case strtod (cargv ! 0) of
             None \<Rightarrow> Inr (si, h, cinfo, reg, fail_reply ETIME_CMD ''Invalid argument specified'')
           | Some v \<Rightarrow>
               if dlt v MIN_ETIME \<or> dgt v MAX_ETIME
               then Inr (si, h, cinfo, reg, fail_reply ETIME_CMD ''Invalid exposure time specified'')
               else (case free_opt h (image_data cinfo) of
                       Inl e \<Rightarrow> Inl e
                     | Inr h' \<Rightarrow>
                         (let si' = si\<lparr>etime := v, frame_count := 0, exp_start_ts := 0\<rparr>
                          in Inr (si', h', cinfo\<lparr>image_data := None\<rparr>,
                                  snd (ssPutString reg TAU_SS_ETIME (printf_d 3 (etime si'))),
                                  ''. '' @ ETIME_CMD))))"

definition tau_gain ::
  "tau_server_info \<Rightarrow> registry \<Rightarrow> string list \<Rightarrow> tau_server_info \<times> registry \<times> string" where
  "tau_gain si reg cargv =
     (if length cargv \<noteq> 1 then (si, reg, fail_reply GAIN_CMD ''Invalid argument specified'')
      else case (if strcasecmp_eq (cargv ! 0) ''AUTO'' then Some GAIN_AUTO
                 else if strcasecmp_eq (cargv ! 0) ''HIGH'' then Some GAIN_HIGH
                 else if strcasecmp_eq (cargv ! 0) ''LOW'' then Some GAIN_LOW
                 else if strcasecmp_eq (cargv ! 0) ''MANUAL'' then Some GAIN_MANUAL
                 else None) of
             None \<Rightarrow> (si, reg, fail_reply GAIN_CMD ''Invalid gain argument specified'')
           | Some g \<Rightarrow>
               (case applyGain (si\<lparr>gain := g\<rparr>) reg g of
                  (si', reg') \<Rightarrow> (si', reg', ''. '' @ GAIN_CMD)))"

text \<open>The two bounds as \<^verbatim>\<open>double\<close>s: the one nearest to 0.1, and 600.\<close>

lemma min_etime_value: "MIN_ETIME = Fin (3602879701896397 / 36028797018963968)"
  unfolding MIN_ETIME_def by code_simp

lemma max_etime_value: "MAX_ETIME = Fin 600"
  by (simp add: MAX_ETIME_def d_of_int_def)

section \<open>Recognising an image request\<close>

text \<open>
  \<^verbatim>\<open>stristr(str, pattern)\<close> of \<^verbatim>\<open>zwocamServ.c\<close>.  A pointer into the string is the
  rest of the string from there; \<open>deref\<close> reads the character under a pointer, the
  terminating NUL at the end.  \<open>skip_mismatch\<close> is the inner loop that advances
  \<^verbatim>\<open>start\<close> to a character equal to the pattern's first one, \<open>match_here\<close> the loop
  that compares the pattern, \<open>stristr_from\<close> the enclosing \<^verbatim>\<open>for\<close> loop.  The first
  equations of \<open>skip_mismatch\<close> and \<open>match_here\<close> are never reached: the \<^verbatim>\<open>for\<close>
  loop keeps at least \<^verbatim>\<open>plen\<close> characters under \<^verbatim>\<open>start\<close>.
\<close>

definition deref :: "string \<Rightarrow> char" where
  "deref p = (case p of [] \<Rightarrow> CHR 0x00 | c # _ \<Rightarrow> c)"

fun skip_mismatch :: "string \<Rightarrow> string \<Rightarrow> string option" where
  "skip_mismatch [] pattern = (if c_toupper (CHR 0x00) \<noteq> c_toupper (deref pattern) then None else Some [])"
| "skip_mismatch (c # start) pattern =
     (if c_toupper c \<noteq> c_toupper (deref pattern)
      then if length start < length pattern then None else skip_mismatch start pattern
      else Some (c # start))"

fun match_here :: "string \<Rightarrow> string \<Rightarrow> bool" where
  "match_here sptr [] = False"
| "match_here sptr (p # pptr) =
     (if c_toupper (deref sptr) = c_toupper p
      then if pptr = [] then True else match_here (tl sptr) pptr
      else False)"

lemma skip_mismatch_suffix:
  "skip_mismatch start pattern = Some start' \<Longrightarrow> length pattern \<le> length start \<Longrightarrow>
     length start' \<le> length start \<and> length pattern \<le> length start'"
  by (induction start pattern rule: skip_mismatch.induct) (auto split: if_splits)

function stristr_from :: "string \<Rightarrow> string \<Rightarrow> string option" where
  "stristr_from start pattern =
     (if pattern \<noteq> [] \<and> length start \<ge> length pattern then
        (case skip_mismatch start pattern of
           None \<Rightarrow> None
         | Some start' \<Rightarrow>
             if match_here start' pattern then Some start'
             else stristr_from (tl start') pattern)
      else None)"
  by pat_completeness auto
termination
proof (relation "measure (\<lambda>(start, pattern). length start)", goal_cases)
  case 1
  show ?case by simp
next
  case (2 start pattern start')
  then have "length start' \<le> length start \<and> length pattern \<le> length start'"
    using skip_mismatch_suffix by blast
  with 2 show ?case by (cases start') auto
qed

definition stristr :: "string \<Rightarrow> string \<Rightarrow> string option" where
  "stristr str pattern = stristr_from str pattern"

text \<open>
  \<^verbatim>\<open>client_recv\<close> of the ZWO server: \<^verbatim>\<open>takeImage\<close> when \<^verbatim>\<open>stristr\<close> finds the word,
  otherwise the line goes to the command table (\<^verbatim>\<open>cli_execute\<close>).
\<close>

datatype zwo_request = ZwoTakeImage | ZwoExecute string

definition zwo_client_recv :: "string \<Rightarrow> zwo_request" where
  "zwo_client_recv buffer =
     (if stristr buffer IMAGE_CMD \<noteq> None then ZwoTakeImage else ZwoExecute buffer)"

text \<open>The pattern occurs in \<open>str\<close> at offset \<open>k\<close>, letter case ignored.\<close>

definition matches_at :: "string \<Rightarrow> string \<Rightarrow> nat \<Rightarrow> bool" where
  "matches_at pattern str k \<longleftrightarrow>
     k + length pattern \<le> length str \<and>
     map c_toupper (take (length pattern) (drop k str)) = map c_toupper pattern"

lemma match_here_iff:
  "pattern \<noteq> [] \<Longrightarrow> length pattern \<le> length s \<Longrightarrow>
     match_here s pattern \<longleftrightarrow> map c_toupper (take (length pattern) s) = map c_toupper pattern"
proof (induction pattern arbitrary: s)
  case Nil
  then show ?case by simp
next
  case (Cons p pattern)
  then obtain c s' where s: "s = c # s'" by (cases s) auto
  show ?case
  proof (cases "pattern = []")
    case True
    then show ?thesis using s by (simp add: deref_def)
  next
    case False
    then show ?thesis using Cons s by (simp add: deref_def)
  qed
qed

lemma matches_at_head:
  "pattern \<noteq> [] \<Longrightarrow> matches_at pattern str k \<Longrightarrow>
     c_toupper (str ! k) = c_toupper (deref pattern)"
proof -
  assume p: "pattern \<noteq> []" and m: "matches_at pattern str k"
  obtain q qs where pq: "pattern = q # qs" using p by (cases pattern) auto
  have k: "k < length str" using m pq by (simp add: matches_at_def)
  then have "drop k str = str ! k # drop (Suc k) str" by (simp add: Cons_nth_drop_Suc)
  then show ?thesis using m pq by (simp add: matches_at_def deref_def)
qed

lemma skip_mismatch_None:
  "pattern \<noteq> [] \<Longrightarrow> length pattern \<le> length start \<Longrightarrow> skip_mismatch start pattern = None \<Longrightarrow>
     \<not> matches_at pattern start k"
proof (induction start pattern arbitrary: k rule: skip_mismatch.induct)
  case (1 pattern)
  then show ?case by simp
next
  case (2 c start pattern)
  show ?case
  proof
    assume m: "matches_at pattern (c # start) k"
    from 2(4) have ne: "c_toupper c \<noteq> c_toupper (deref pattern)" by (auto split: if_splits)
    have "k \<noteq> 0" using matches_at_head[OF 2(2) m] ne by (cases k) auto
    then obtain k' where k': "k = Suc k'" by (cases k) auto
    have m': "matches_at pattern start k'" using m k' by (simp add: matches_at_def)
    then have len: "length pattern \<le> length start" by (simp add: matches_at_def)
    then have "skip_mismatch start pattern = None" using 2(4) ne by (simp split: if_splits)
    from 2(1)[OF ne _ 2(2) len this] len m' show False by auto
  qed
qed

lemma skip_mismatch_Some:
  "pattern \<noteq> [] \<Longrightarrow> length pattern \<le> length start \<Longrightarrow> skip_mismatch start pattern = Some start' \<Longrightarrow>
     \<exists>k0. start' = drop k0 start \<and> k0 + length pattern \<le> length start \<and>
          (\<forall>k<k0. \<not> matches_at pattern start k)"
proof (induction start pattern rule: skip_mismatch.induct)
  case (1 pattern)
  then show ?case by simp
next
  case (2 c start pattern)
  show ?case
  proof (cases "c_toupper c \<noteq> c_toupper (deref pattern)")
    case False
    then have "start' = c # start" using 2(4) by simp
    then show ?thesis using 2(3) by (intro exI[of _ 0]) simp
  next
    case True
    then have len: "\<not> length start < length pattern" and sk: "skip_mismatch start pattern = Some start'"
      using 2(4) by (auto split: if_splits)
    from 2(1)[OF True len 2(2) _ sk] len obtain k0 where k0:
      "start' = drop k0 start" "k0 + length pattern \<le> length start"
      "\<forall>k<k0. \<not> matches_at pattern start k" by auto
    have "\<not> matches_at pattern (c # start) k" if "k < Suc k0" for k
    proof (cases k)
      case 0
      then show ?thesis using matches_at_head[OF 2(2), of "c # start" 0] True by auto
    next
      case (Suc k')
      then have "\<not> matches_at pattern start k'" using k0(3) that by simp
      then show ?thesis using Suc by (simp add: matches_at_def)
    qed
    then show ?thesis using k0 by (intro exI[of _ "Suc k0"]) simp
  qed
qed

lemma stristr_from_iff:
  "stristr_from start pattern \<noteq> None \<longleftrightarrow> pattern \<noteq> [] \<and> (\<exists>k. matches_at pattern start k)"
proof (induction start pattern rule: stristr_from.induct)
  case (1 start pattern)
  show ?case
  proof (cases "pattern \<noteq> [] \<and> length start \<ge> length pattern")
    case False
    then show ?thesis by (auto simp: matches_at_def)
  next
    case True
    then have p: "pattern \<noteq> []" and len: "length pattern \<le> length start" by auto
    show ?thesis
    proof (cases "skip_mismatch start pattern")
      case None
      then show ?thesis using skip_mismatch_None[OF p len None] True by simp
    next
      case (Some start')
      from skip_mismatch_Some[OF p len Some] obtain k0 where k0:
        "start' = drop k0 start" "k0 + length pattern \<le> length start"
        "\<forall>k<k0. \<not> matches_at pattern start k" by auto
      have len': "length pattern \<le> length start'" using k0 by simp
      show ?thesis
      proof (cases "match_here start' pattern")
        case mh: True
        then have "matches_at pattern start k0"
          using match_here_iff[OF p len'] k0 by (simp add: matches_at_def)
        then show ?thesis using True Some mh by auto
      next
        case mh: False
        then have nm: "\<not> matches_at pattern start k0"
          using match_here_iff[OF p len'] k0 by (simp add: matches_at_def)
        have tl: "tl start' = drop (Suc k0) start" using k0(1) by (simp add: drop_Suc drop_tl)
        have ih: "stristr_from (tl start') pattern \<noteq> None \<longleftrightarrow>
              pattern \<noteq> [] \<and> (\<exists>k. matches_at pattern (tl start') k)"
          using 1[OF True Some mh] .
        have shift: "matches_at pattern (drop (Suc k0) start) k \<longleftrightarrow> matches_at pattern start (Suc k0 + k)" for k
          using p k0(2) by (cases pattern) (auto simp: matches_at_def add.commute)
        have "(\<exists>k. matches_at pattern start k) \<longleftrightarrow> (\<exists>k. matches_at pattern (tl start') k)"
        proof
          assume "\<exists>k. matches_at pattern start k"
          then obtain k where k: "matches_at pattern start k" by auto
          have "\<not> k < k0" using k0(3) k by auto
          moreover have "k \<noteq> k0" using nm k by auto
          ultimately have "k = Suc k0 + (k - Suc k0)" by simp
          then have "matches_at pattern (drop (Suc k0) start) (k - Suc k0)" using k shift by metis
          then show "\<exists>k. matches_at pattern (tl start') k" unfolding tl by blast
        next
          assume "\<exists>k. matches_at pattern (tl start') k"
          then show "\<exists>k. matches_at pattern start k" unfolding tl shift by blast
        qed
        then show ?thesis using ih True Some mh by simp
      qed
    qed
  qed
qed

text \<open>
  The spec's wording, "a line merely containing the substring", letter case ignored.
\<close>

definition contains_ci :: "string \<Rightarrow> string \<Rightarrow> bool" where
  "contains_ci word line \<longleftrightarrow>
     (\<exists>pre mid post. line = pre @ mid @ post \<and> map c_toupper mid = map c_toupper word)"

lemma contains_ci_matches: "contains_ci word line \<longleftrightarrow> (\<exists>k. matches_at word line k)"
proof
  assume "contains_ci word line"
  then obtain pre mid post where l: "line = pre @ mid @ post"
    and m: "map c_toupper mid = map c_toupper word" by (auto simp: contains_ci_def)
  from m have "length mid = length word" by (metis length_map)
  then have "matches_at word line (length pre)" using l m by (simp add: matches_at_def)
  then show "\<exists>k. matches_at word line k" ..
next
  assume "\<exists>k. matches_at word line k"
  then obtain k where k: "k + length word \<le> length line"
    "map c_toupper (take (length word) (drop k line)) = map c_toupper word"
    by (auto simp: matches_at_def)
  have "line = take k line @ (take (length word) (drop k line) @ drop (length word) (drop k line))"
    by (simp only: append_take_drop_id)
  then show "contains_ci word line" unfolding contains_ci_def using k(2) by blast
qed

lemma stristr_contains:
  "stristr line IMAGE_CMD \<noteq> None \<longleftrightarrow> contains_ci IMAGE_CMD line"
  unfolding stristr_def stristr_from_iff contains_ci_matches by (simp add: IMAGE_CMD_def)

lemma tolower_cmds:
  "map c_tolower QUIT_CMD = ''quit''" "map c_tolower BYE_CMD = ''bye''"
  "map c_tolower EXIT_CMD = ''exit''" "map c_tolower LOGOUT_CMD = ''logout''"
  "map c_tolower IMAGE_CMD = ''image''" "map c_tolower ETIME_CMD = ''etime''"
  "map c_tolower GAIN_CMD = ''gain''"
  by (simp_all add: c_tolower_def QUIT_CMD_def BYE_CMD_def EXIT_CMD_def LOGOUT_CMD_def
      IMAGE_CMD_def ETIME_CMD_def GAIN_CMD_def)

lemma c_tolower_space: "c_tolower c = CHR '' '' \<longleftrightarrow> c = CHR '' ''"
  by (auto simp: c_tolower_def split: option.splits if_splits)

lemma tau_route_image:
  "tau_route argv line = TakeImage \<longleftrightarrow> strcasecmp_eq (trim line) IMAGE_CMD"
proof -
  let ?b = "trim line"
  show ?thesis
  proof (cases "strcasecmp_eq ?b IMAGE_CMD")
    case True
    then have e: "map c_tolower ?b = ''image''" by (simp add: strcasecmp_eq_def tolower_cmds)
    have "CHR '' '' \<notin> set ?b"
    proof
      assume "CHR '' '' \<in> set ?b"
      then have "c_tolower (CHR '' '') \<in> set (map c_tolower ?b)" by (metis image_eqI set_map)
      then show False unfolding e by (simp add: c_tolower_def)
    qed
    then show ?thesis using True e
      by (simp add: tau_route_def Let_def strcasecmp_eq_def tolower_cmds)
  next
    case False
    then show ?thesis
      by (auto simp: tau_route_def Let_def)
  qed
qed

text \<open>
  Claim C7, as amended.  On the ZWO server a line is an image request exactly when it
  contains the word \<^verbatim>\<open>image\<close> somewhere, in any letter case, and only the other lines
  reach the command table.  On the Tau server a line is an image request exactly when,
  with the white space at its ends removed, it is the word \<^verbatim>\<open>IMAGE\<close> in any letter
  case.
\<close>

theorem image_request_per_server:
  "zwo_client_recv line =
     (if contains_ci IMAGE_CMD line then ZwoTakeImage else ZwoExecute line) \<and>
   (tau_route argv line = TakeImage \<longleftrightarrow> strcasecmp_eq (trim line) IMAGE_CMD)"
  using stristr_contains[of line] tau_route_image[of argv line]
  by (simp add: zwo_client_recv_def)

text \<open>
  Claim C7 as stated fails on the Tau server: the lines \<^verbatim>\<open>take image\<close> and
  \<^verbatim>\<open>images\<close> contain the word and are answered with the syntax error, and the line
  \<^verbatim>\<open>ETIME image\<close> contains it and is handled as an \<^verbatim>\<open>ETIME\<close> command with the argument
  \<^verbatim>\<open>image\<close>.
\<close>

theorem tau_image_needs_exact_word:
  "contains_ci IMAGE_CMD ''take image'' \<and>
   tau_route (\<lambda>s. [s]) ''take image'' = Reply syntax_error \<and>
   contains_ci IMAGE_CMD ''images'' \<and>
   tau_route (\<lambda>s. [s]) ''images'' = Reply syntax_error \<and>
   contains_ci IMAGE_CMD ''ETIME image'' \<and>
   tau_route (\<lambda>s. [s]) ''ETIME image'' = EtimeArgs [''image'']"
proof -
  have "''ETIME image'' = ''ETIME '' @ ''image'' @ []" by simp
  then have e: "contains_ci IMAGE_CMD ''ETIME image''"
    unfolding contains_ci_def IMAGE_CMD_def
    by (intro exI[of _ "''ETIME ''"] exI[of _ "''image''"] exI[of _ "[]"]) (simp add: c_toupper_def)
  have f: "tau_route (\<lambda>s. [s]) ''ETIME image'' = EtimeArgs [''image'']"
    by (simp add: tau_route_def trim_def ltrim_def rtrim_def c_isspace_def strcasecmp_eq_def
        c_tolower_def ETIME_CMD_def GAIN_CMD_def)
  have "''take image'' = ''take '' @ ''image'' @ []" by simp
  then have a: "contains_ci IMAGE_CMD ''take image''"
    unfolding contains_ci_def IMAGE_CMD_def
    by (intro exI[of _ "''take ''"] exI[of _ "''image''"] exI[of _ "[]"]) (simp add: c_toupper_def)
  have b: "contains_ci IMAGE_CMD ''images''"
    unfolding contains_ci_def IMAGE_CMD_def
    by (intro exI[of _ "[]"] exI[of _ "''image''"] exI[of _ "''s''"]) (simp add: c_toupper_def)
  have c: "tau_route (\<lambda>s. [s]) ''take image'' = Reply syntax_error"
    by (simp add: tau_route_def trim_def ltrim_def rtrim_def c_isspace_def strcasecmp_eq_def
        c_tolower_def ETIME_CMD_def GAIN_CMD_def)
  have d: "tau_route (\<lambda>s. [s]) ''images'' = Reply syntax_error"
    by (simp add: tau_route_def trim_def ltrim_def rtrim_def c_isspace_def strcasecmp_eq_def
        c_tolower_def ETIME_CMD_def GAIN_CMD_def QUIT_CMD_def BYE_CMD_def EXIT_CMD_def
        LOGOUT_CMD_def IMAGE_CMD_def)
  show ?thesis using a b c d e f by simp
qed

section \<open>The exposure-time commands\<close>








lemma sixty_value: "fl 60 = Fin 60"
  by code_simp




















lemma gain_strings_distinct:
  "strcasecmp_eq a (gain_string g) \<Longrightarrow> strcasecmp_eq a (gain_string g') \<Longrightarrow> g = g'"
  by (cases g; cases g') (auto simp: strcasecmp_eq_def gain_string_def c_tolower_def)

text \<open>
  Claim C6, as amended.  ZWO server (\<open>gv\<close> is what \<^verbatim>\<open>atoi\<close> reads from the
  argument): outside [0, 510] the gain is unchanged and the reply is a fail with a
  diagnostic; inside, the gain is set, written to the registry and the reply is
  \<^verbatim>\<open>. gain\<close> followed by the value.  Tau server: an argument that is none of AUTO, HIGH,
  LOW, MANUAL in any letter case is refused with a fail reply and nothing changes; one
  that is sets the gain, hands it to the camera, writes its name to the registry and the
  reply is \<^verbatim>\<open>. GAIN\<close> with no value.
\<close>

theorem gain_command_per_server:
  "(gv < MIN_GAIN \<or> gv > MAX_GAIN \<longrightarrow>
      com_gain si reg gv = (si, reg, ''! gain '' @ quoted ''invalid value'')) \<and>
   (MIN_GAIN \<le> gv \<and> gv \<le> MAX_GAIN \<longrightarrow>
      com_gain si reg gv =
        (si\<lparr>zwo_gain := gv\<rparr>, snd (ssPutString reg ZWO_SS_GAIN (show_int gv)),
         ''. gain '' @ show_int gv)) \<and>
   ((\<forall>g. \<not> strcasecmp_eq a (gain_string g)) \<longrightarrow>
      tau_gain ts treg [a] = (ts, treg, fail_reply GAIN_CMD ''Invalid gain argument specified'')) \<and>
   (strcasecmp_eq a (gain_string g) \<longrightarrow>
      tau_gain ts treg [a] =
        (ts\<lparr>gain := g, tgr_gain_mode := Some g\<rparr>,
         snd (ssPutString treg TAU_SS_GAIN (gain_string g)), ''. GAIN''))"
proof (intro conjI impI)
  assume "gv < MIN_GAIN \<or> gv > MAX_GAIN"
  then show "com_gain si reg gv = (si, reg, ''! gain '' @ quoted ''invalid value'')"
    by (auto simp: com_gain_def)
next
  assume "MIN_GAIN \<le> gv \<and> gv \<le> MAX_GAIN"
  then show "com_gain si reg gv =
        (si\<lparr>zwo_gain := gv\<rparr>, snd (ssPutString reg ZWO_SS_GAIN (show_int gv)),
         ''. gain '' @ show_int gv)"
    by (auto simp: com_gain_def Let_def)
next
  assume n: "\<forall>g. \<not> strcasecmp_eq a (gain_string g)"
  have "\<not> strcasecmp_eq a ''AUTO''" "\<not> strcasecmp_eq a ''HIGH''"
    "\<not> strcasecmp_eq a ''LOW''" "\<not> strcasecmp_eq a ''MANUAL''"
    using n[rule_format, of GAIN_AUTO] n[rule_format, of GAIN_HIGH]
      n[rule_format, of GAIN_LOW] n[rule_format, of GAIN_MANUAL]
    by (simp_all add: gain_string_def)
  then show "tau_gain ts treg [a] = (ts, treg, fail_reply GAIN_CMD ''Invalid gain argument specified'')"
    by (simp add: tau_gain_def)
next
  assume y: "strcasecmp_eq a (gain_string g)"
  have others: "g' \<noteq> g \<Longrightarrow> \<not> strcasecmp_eq a (gain_string g')" for g'
    using gain_strings_distinct[OF y] by blast
  show "tau_gain ts treg [a] =
        (ts\<lparr>gain := g, tgr_gain_mode := Some g\<rparr>,
         snd (ssPutString treg TAU_SS_GAIN (gain_string g)), ''. GAIN'')"
  proof (cases g)
    case GAIN_AUTO
    then show ?thesis using y
      by (simp add: tau_gain_def applyGain_def GAIN_CMD_def gain_string_def)
  next
    case GAIN_HIGH
    then show ?thesis using y others[of GAIN_AUTO]
      by (simp add: tau_gain_def applyGain_def GAIN_CMD_def gain_string_def)
  next
    case GAIN_LOW
    then show ?thesis using y others[of GAIN_AUTO] others[of GAIN_HIGH]
      by (simp add: tau_gain_def applyGain_def GAIN_CMD_def gain_string_def)
  next
    case GAIN_MANUAL
    then show ?thesis using y others[of GAIN_AUTO] others[of GAIN_HIGH] others[of GAIN_LOW]
      by (simp add: tau_gain_def applyGain_def GAIN_CMD_def gain_string_def)
  qed
qed

lemma show_int_examples: "show_int 510 = ''510''" "show_int 0 = ''0''"
  by code_simp+

theorem gain_command_per_server_witness:
  "com_gain \<lparr>zwo_etime = Fin 1, zwo_gain = 7\<rparr> \<lparr>connected = True, entries = Map.empty\<rparr> 600 =
     (\<lparr>zwo_etime = Fin 1, zwo_gain = 7\<rparr>, \<lparr>connected = True, entries = Map.empty\<rparr>,
      ''! gain '' @ quoted ''invalid value'') \<and>
   com_gain \<lparr>zwo_etime = Fin 1, zwo_gain = 7\<rparr> \<lparr>connected = True, entries = Map.empty\<rparr> 510 =
     (\<lparr>zwo_etime = Fin 1, zwo_gain = 510\<rparr>,
      \<lparr>connected = True, entries = [ZWO_SS_GAIN \<mapsto> ''510'']\<rparr>, ''. gain 510'') \<and>
   tau_gain \<lparr>tgr_gain_mode = Some GAIN_AUTO, gain = GAIN_AUTO, etime = Fin 1, width = 0, height = 0,
             stack_data = None, frame_count = 0, exp_start_ts = 0\<rparr>
       \<lparr>connected = True, entries = Map.empty\<rparr> [''bogus''] =
     (\<lparr>tgr_gain_mode = Some GAIN_AUTO, gain = GAIN_AUTO, etime = Fin 1, width = 0, height = 0,
       stack_data = None, frame_count = 0, exp_start_ts = 0\<rparr>,
      \<lparr>connected = True, entries = Map.empty\<rparr>,
      fail_reply GAIN_CMD ''Invalid gain argument specified'') \<and>
   tau_gain \<lparr>tgr_gain_mode = Some GAIN_AUTO, gain = GAIN_AUTO, etime = Fin 1, width = 0, height = 0,
             stack_data = None, frame_count = 0, exp_start_ts = 0\<rparr>
       \<lparr>connected = True, entries = Map.empty\<rparr> [''Low''] =
     (\<lparr>tgr_gain_mode = Some GAIN_LOW, gain = GAIN_LOW, etime = Fin 1, width = 0, height = 0,
       stack_data = None, frame_count = 0, exp_start_ts = 0\<rparr>,
      \<lparr>connected = True, entries = [TAU_SS_GAIN \<mapsto> ''LOW'']\<rparr>, ''. GAIN'')"
proof -
  have bogus: "\<forall>g. \<not> strcasecmp_eq ''bogus'' (gain_string g)"
  proof
    fix g show "\<not> strcasecmp_eq ''bogus'' (gain_string g)"
      by (cases g) (simp_all add: strcasecmp_eq_def gain_string_def c_tolower_def)
  qed
  have low: "strcasecmp_eq ''Low'' (gain_string GAIN_LOW)"
    by (simp add: strcasecmp_eq_def gain_string_def c_tolower_def)
  note t = gain_command_per_server
  show ?thesis
    using t[where gv = 600 and si = "\<lparr>zwo_etime = Fin 1, zwo_gain = 7\<rparr>"
            and reg = "\<lparr>connected = True, entries = Map.empty\<rparr>"]
      t[where gv = 510 and si = "\<lparr>zwo_etime = Fin 1, zwo_gain = 7\<rparr>"
            and reg = "\<lparr>connected = True, entries = Map.empty\<rparr>"]
      t[where a = "''bogus''"
            and ts = "\<lparr>tgr_gain_mode = Some GAIN_AUTO, gain = GAIN_AUTO, etime = Fin 1, width = 0,
                      height = 0, stack_data = None, frame_count = 0, exp_start_ts = 0\<rparr>"
            and treg = "\<lparr>connected = True, entries = Map.empty\<rparr>"]
      t[where a = "''Low''" and g = GAIN_LOW
            and ts = "\<lparr>tgr_gain_mode = Some GAIN_AUTO, gain = GAIN_AUTO, etime = Fin 1, width = 0,
                      height = 0, stack_data = None, frame_count = 0, exp_start_ts = 0\<rparr>"
            and treg = "\<lparr>connected = True, entries = Map.empty\<rparr>"]
      bogus low
    by (simp add: MIN_GAIN_def MAX_GAIN_def show_int_examples ssPutString_def gain_string_def)
qed

text \<open>
  Claim C6 as stated fails on the Tau server: \<^verbatim>\<open>GAIN HIGH\<close> is answered with
  \<^verbatim>\<open>. GAIN\<close>, which does not echo the value, and the spelling \<^verbatim>\<open>manual\<close> is accepted.
\<close>

theorem tau_gain_reply_without_value:
  "tau_gain \<lparr>tgr_gain_mode = Some GAIN_AUTO, gain = GAIN_AUTO, etime = Fin 1, width = 0, height = 0,
             stack_data = None, frame_count = 0, exp_start_ts = 0\<rparr>
       \<lparr>connected = True, entries = Map.empty\<rparr> [''HIGH''] =
     (\<lparr>tgr_gain_mode = Some GAIN_HIGH, gain = GAIN_HIGH, etime = Fin 1, width = 0, height = 0,
       stack_data = None, frame_count = 0, exp_start_ts = 0\<rparr>,
      \<lparr>connected = True, entries = [TAU_SS_GAIN \<mapsto> ''HIGH'']\<rparr>, ''. GAIN'') \<and>
   tau_gain \<lparr>tgr_gain_mode = Some GAIN_AUTO, gain = GAIN_AUTO, etime = Fin 1, width = 0, height = 0,
             stack_data = None, frame_count = 0, exp_start_ts = 0\<rparr>
       \<lparr>connected = True, entries = Map.empty\<rparr> [''manual''] =
     (\<lparr>tgr_gain_mode = Some GAIN_MANUAL, gain = GAIN_MANUAL, etime = Fin 1, width = 0, height = 0,
       stack_data = None, frame_count = 0, exp_start_ts = 0\<rparr>,
      \<lparr>connected = True, entries = [TAU_SS_GAIN \<mapsto> ''MANUAL'']\<rparr>, ''. GAIN'')"
  by (simp add: tau_gain_def applyGain_def strcasecmp_eq_def c_tolower_def gain_string_def
      ssPutString_def GAIN_CMD_def)

section \<open>The median of a frame\<close>

text \<open>
  \<^verbatim>\<open>medianCalculation(arr, n, m)\<close>, the same in the Tau server and in
  \<^verbatim>\<open>taucamLocal.cc\<close>.  The array is a list of 16-bit pixels, compared as unsigned
  numbers; \<^verbatim>\<open>low\<close>, \<^verbatim>\<open>high\<close>, \<^verbatim>\<open>median\<close>, \<^verbatim>\<open>middle\<close>, \<^verbatim>\<open>ll\<close> and \<^verbatim>\<open>hh\<close> are C
  \<^verbatim>\<open>int\<close>s and are modelled as integers: for an array of at most \<open>2 ^ 30\<close> elements
  no sum of two indices leaves the \<^verbatim>\<open>int\<close> range.  An access outside the array,
  which C leaves undefined, ends the computation with \<open>None\<close>; so does the division by
  a zero \<^verbatim>\<open>m\<close>.  The result is the value returned together with the array as the
  function leaves it.
\<close>

definition in_arr :: "pixel list \<Rightarrow> int \<Rightarrow> bool" where
  "in_arr arr i \<longleftrightarrow> 0 \<le> i \<and> i < int (length arr)"

definition elem :: "pixel list \<Rightarrow> int \<Rightarrow> pixel" where
  "elem arr i = arr ! nat i"

definition ELEM_SWAP :: "pixel list \<Rightarrow> int \<Rightarrow> int \<Rightarrow> pixel list" where
  "ELEM_SWAP arr a b = arr[nat a := elem arr b, nat b := elem arr a]"

text \<open>The division of \<^verbatim>\<open>int\<close>s in C rounds towards zero.\<close>

definition c_div :: "int \<Rightarrow> int \<Rightarrow> int" where
  "c_div a b = sgn a * sgn b * (\<bar>a\<bar> div \<bar>b\<bar>)"

lemma in_arr_stride:
  assumes "in_arr arr (i * int m)" "m \<noteq> 0"
  shows "0 \<le> i" and "i < int (length arr)"
proof -
  have m: "0 < int m" using assms(2) by simp
  have a: "0 \<le> i * int m" and b: "i * int m < int (length arr)"
    using assms(1) by (simp_all add: in_arr_def)
  show "0 \<le> i" using a m by (simp add: zero_le_mult_iff)
  then have "i * 1 \<le> i * int m" using m by (intro mult_left_mono) auto
  then show "i < int (length arr)" using b by simp
qed

text \<open>\<^verbatim>\<open>do ll++; while (arr[low * m] > arr[ll * m]);\<close> from the value of \<^verbatim>\<open>ll\<close> given.\<close>

function scan_up :: "pixel list \<Rightarrow> nat \<Rightarrow> int \<Rightarrow> int \<Rightarrow> int option" where
  "scan_up arr m low ll =
     (let ll = ll + 1
      in if \<not> in_arr arr (low * int m) \<or> \<not> in_arr arr (ll * int m) then None
         else if elem arr (low * int m) > elem arr (ll * int m) then scan_up arr m low ll
         else Some ll)"
  by pat_completeness auto
termination
proof (relation "measure (\<lambda>(arr, m, low, ll). nat (int (length arr) - ll))", goal_cases)
  case 1
  show ?case by simp
next
  case (2 arr m low ll x)
  then have "m \<noteq> 0" by (cases "m = 0") auto
  with 2 have "x < int (length arr)" using in_arr_stride(2)[of arr x m] by auto
  with 2 show ?case by auto
qed

text \<open>\<^verbatim>\<open>do hh--; while (arr[hh * m] > arr[low * m]);\<close> from the value of \<^verbatim>\<open>hh\<close> given.\<close>

function scan_down :: "pixel list \<Rightarrow> nat \<Rightarrow> int \<Rightarrow> int \<Rightarrow> int option" where
  "scan_down arr m low hh =
     (let hh = hh - 1
      in if \<not> in_arr arr (hh * int m) \<or> \<not> in_arr arr (low * int m) then None
         else if elem arr (hh * int m) > elem arr (low * int m) then scan_down arr m low hh
         else Some hh)"
  by pat_completeness auto
termination
proof (relation "measure (\<lambda>(arr, m, low, hh). nat hh)", goal_cases)
  case 1
  show ?case by simp
next
  case (2 arr m low hh x)
  then have "m \<noteq> 0" by (cases "m = 0") auto
  with 2 have "0 \<le> x" using in_arr_stride(1)[of arr x m] by auto
  with 2 show ?case by auto
qed

declare scan_up.simps [simp del] scan_down.simps [simp del]

lemma scan_up_gt: "scan_up arr m low ll = Some ll' \<Longrightarrow> ll < ll'"
proof (induction arr m low ll rule: scan_up.induct)
  case (1 arr m low ll)
  then show ?case
    by (subst (asm) (2) scan_up.simps) (auto simp: Let_def split: if_splits)
qed

lemma scan_down_lt: "scan_down arr m low hh = Some hh' \<Longrightarrow> hh' < hh"
proof (induction arr m low hh rule: scan_down.induct)
  case (1 arr m low hh)
  then show ?case
    by (subst (asm) (2) scan_down.simps) (auto simp: Let_def split: if_splits)
qed

text \<open>
  The inner \<^verbatim>\<open>for (;;)\<close> loop ("nibble from each end towards middle, swapping items
  when stuck"), from the values of \<^verbatim>\<open>ll\<close> and \<^verbatim>\<open>hh\<close> given.
\<close>

function nibble :: "pixel list \<Rightarrow> nat \<Rightarrow> int \<Rightarrow> int \<Rightarrow> int \<Rightarrow> (pixel list \<times> int \<times> int) option" where
  "nibble arr m low ll hh =
     (case scan_up arr m low ll of
        None \<Rightarrow> None
      | Some ll \<Rightarrow>
          (case scan_down arr m low hh of
             None \<Rightarrow> None
           | Some hh \<Rightarrow>
               if hh < ll then Some (arr, ll, hh)
               else nibble (ELEM_SWAP arr (ll * int m) (hh * int m)) m low ll hh))"
  by pat_completeness auto
termination
proof (relation "measure (\<lambda>(arr, m, low, ll, hh). nat (hh - ll))", goal_cases)
  case 1
  show ?case by simp
next
  case (2 arr m low ll hh ll' hh')
  then show ?case using scan_up_gt[of arr m low ll ll'] scan_down_lt[of arr m low hh hh'] by auto
qed

declare nibble.simps [simp del]

lemma nibble_bounds: "nibble arr m low ll hh = Some (arr', ll', hh') \<Longrightarrow> ll < ll' \<and> hh' < hh"
proof (induction arr m low ll hh rule: nibble.induct)
  case (1 arr m low ll hh)
  from "1.prems" obtain l1 h1 where s: "scan_up arr m low ll = Some l1" "scan_down arr m low hh = Some h1"
    by (subst (asm) nibble.simps) (auto split: option.splits)
  have b: "ll < l1" "h1 < hh" using scan_up_gt[OF s(1)] scan_down_lt[OF s(2)] by auto
  show ?case
  proof (cases "h1 < l1")
    case True
    then show ?thesis using "1.prems" s b by (subst (asm) nibble.simps) auto
  next
    case False
    then have "nibble (ELEM_SWAP arr (l1 * int m) (h1 * int m)) m low l1 h1 = Some (arr', ll', hh')"
      using "1.prems" s by (subst (asm) nibble.simps) auto
    from "1.IH"[OF s(1) s(2) False this] b show ?thesis by auto
  qed
qed

text \<open>
  The outer \<^verbatim>\<open>for (;;)\<close> loop; \<open>swap_if_gt arr a b\<close> is
  \<^verbatim>\<open>if (arr[a] > arr[b]) ELEM_SWAP(arr[a], arr[b])\<close>.
\<close>

definition swap_if_gt :: "pixel list \<Rightarrow> int \<Rightarrow> int \<Rightarrow> pixel list" where
  "swap_if_gt arr a b = (if elem arr a > elem arr b then ELEM_SWAP arr a b else arr)"

function select_loop ::
  "pixel list \<Rightarrow> nat \<Rightarrow> int \<Rightarrow> int \<Rightarrow> int \<Rightarrow> (pixel \<times> pixel list) option" where
  "select_loop arr m median low high =
     (if high \<le> low then
        if in_arr arr (median * int m) then Some (elem arr (median * int m), arr) else None
      else if high = low + 1 then
        if in_arr arr (low * int m) \<and> in_arr arr (high * int m) then
          (let arr = swap_if_gt arr (low * int m) (high * int m)
           in if in_arr arr (median * int m) then Some (elem arr (median * int m), arr) else None)
        else None
      else
        (let middle = c_div (low + high) 2
         in if in_arr arr (middle * int m) \<and> in_arr arr (high * int m) \<and>
               in_arr arr (low * int m) \<and> in_arr arr ((low + 1) * int m) then
              (let arr = swap_if_gt arr (middle * int m) (high * int m);
                   arr = swap_if_gt arr (low * int m) (high * int m);
                   arr = swap_if_gt arr (middle * int m) (low * int m);
                   arr = ELEM_SWAP arr (middle * int m) ((low + 1) * int m)
               in case nibble arr m low (low + 1) high of
                    None \<Rightarrow> None
                  | Some (arr, ll, hh) \<Rightarrow>
                      (let arr = ELEM_SWAP arr (low * int m) (hh * int m)
                       in select_loop arr m median
                            (if hh \<le> median then ll else low)
                            (if hh \<ge> median then hh - 1 else high)))
            else None))"
  by pat_completeness auto
termination
proof (relation "measure (\<lambda>(arr, m, median, low, high). nat (high - low))", goal_cases)
  case 1
  show ?case by simp
next
  case (2 arr m median low high middle a1 a2 a3 a4 r arr' p ll hh a5)
  then have "nibble a4 m low (low + 1) high = Some (arr', ll, hh)" by simp
  from nibble_bounds[OF this] 2 show ?case by auto
qed

declare select_loop.simps [simp del]

definition medianCalculation :: "pixel list \<Rightarrow> nat \<Rightarrow> nat \<Rightarrow> (pixel \<times> pixel list) option" where
  "medianCalculation arr n m =
     (if m = 0 then None
      else (let n = n div m; low = 0; high = int n - 1; median = c_div (low + high) 2
            in select_loop arr m median low high))"

subsection \<open>Swaps\<close>

lemma in_arr_swap [simp]: "in_arr (ELEM_SWAP arr a b) i = in_arr arr i"
  by (simp add: in_arr_def ELEM_SWAP_def)

lemma length_swap [simp]: "length (ELEM_SWAP arr a b) = length arr"
  by (simp add: ELEM_SWAP_def)

lemma mset_swap_elem: "in_arr arr a \<Longrightarrow> in_arr arr b \<Longrightarrow> mset (ELEM_SWAP arr a b) = mset arr"
proof -
  assume "in_arr arr a" "in_arr arr b"
  then have "nat a < length arr" "nat b < length arr" by (auto simp: in_arr_def)
  then show ?thesis by (simp add: ELEM_SWAP_def elem_def mset_swap)
qed

lemma elem_swap:
  assumes "in_arr arr a" "in_arr arr b" "in_arr arr i"
  shows "elem (ELEM_SWAP arr a b) i =
           (if i = b then elem arr a else if i = a then elem arr b else elem arr i)"
proof -
  have eq: "(nat i = nat b) = (i = b)" "(nat i = nat a) = (i = a)"
    using assms by (auto simp: in_arr_def)
  have len: "nat a < length arr" "nat b < length arr" "nat i < length arr"
    using assms by (auto simp: in_arr_def)
  have "(arr[nat a := arr ! nat b, nat b := arr ! nat a]) ! nat i =
          (if nat i = nat b then arr ! nat a else if nat i = nat a then arr ! nat b else arr ! nat i)"
    using len by (simp add: nth_list_update)
  then show ?thesis unfolding ELEM_SWAP_def elem_def eq .
qed

lemma in_arr_swap_if [simp]: "in_arr (swap_if_gt arr a b) i = in_arr arr i"
  by (simp add: swap_if_gt_def)

lemma length_swap_if [simp]: "length (swap_if_gt arr a b) = length arr"
  by (simp add: swap_if_gt_def)

subsection \<open>Rearrangements inside a window\<close>

text \<open>
  \<open>swaps_in lo hi arr arr'\<close>: \<open>arr'\<close> comes from \<open>arr\<close> by exchanging elements at
  indices between \<open>lo\<close> and \<open>hi\<close>.  \<open>split_at arr k\<close>: no element before index \<open>k\<close>
  is larger than one from \<open>k\<close> on.  \<open>placed arr k\<close>: the element at \<open>k\<close> has nothing
  larger before it and nothing smaller after it.
\<close>

inductive swaps_in :: "int \<Rightarrow> int \<Rightarrow> pixel list \<Rightarrow> pixel list \<Rightarrow> bool" for lo hi arr where
  same: "swaps_in lo hi arr arr"
| step: "swaps_in lo hi arr arr' \<Longrightarrow> lo \<le> a \<Longrightarrow> a \<le> hi \<Longrightarrow> lo \<le> b \<Longrightarrow> b \<le> hi \<Longrightarrow>
         in_arr arr' a \<Longrightarrow> in_arr arr' b \<Longrightarrow> swaps_in lo hi arr (ELEM_SWAP arr' a b)"

lemma swaps_in_trans: "swaps_in lo hi b c \<Longrightarrow> swaps_in lo hi a b \<Longrightarrow> swaps_in lo hi a c"
  by (induction rule: swaps_in.induct) (auto intro: swaps_in.intros)

lemma swaps_in_mono: "swaps_in lo hi a b \<Longrightarrow> lo' \<le> lo \<Longrightarrow> hi \<le> hi' \<Longrightarrow> swaps_in lo' hi' a b"
  by (induction rule: swaps_in.induct) (auto intro: swaps_in.intros)

lemma swaps_in_one:
  "lo \<le> a \<Longrightarrow> a \<le> hi \<Longrightarrow> lo \<le> b \<Longrightarrow> b \<le> hi \<Longrightarrow> in_arr arr a \<Longrightarrow> in_arr arr b \<Longrightarrow>
     swaps_in lo hi arr (ELEM_SWAP arr a b)"
  by (rule swaps_in.step[OF swaps_in.same])

lemma swaps_in_if:
  "lo \<le> a \<Longrightarrow> a \<le> hi \<Longrightarrow> lo \<le> b \<Longrightarrow> b \<le> hi \<Longrightarrow> in_arr arr a \<Longrightarrow> in_arr arr b \<Longrightarrow>
     swaps_in lo hi arr (swap_if_gt arr a b)"
  by (simp add: swap_if_gt_def swaps_in_one swaps_in.same)

lemma swaps_in_length: "swaps_in lo hi a b \<Longrightarrow> length b = length a"
  by (induction rule: swaps_in.induct) auto

lemma swaps_in_in_arr: "swaps_in lo hi a b \<Longrightarrow> in_arr b i = in_arr a i"
  by (simp add: in_arr_def swaps_in_length)

lemma swaps_in_mset: "swaps_in lo hi a b \<Longrightarrow> mset b = mset a"
  by (induction rule: swaps_in.induct) (auto simp: mset_swap_elem)

lemma swaps_in_outside:
  "swaps_in lo hi a b \<Longrightarrow> in_arr a i \<Longrightarrow> i < lo \<or> hi < i \<Longrightarrow> elem b i = elem a i"
proof (induction rule: swaps_in.induct)
  case same
  then show ?case by simp
next
  case (step arr' x y)
  then have "in_arr arr' i" by (simp add: swaps_in_in_arr)
  then show ?case using step by (auto simp: elem_swap)
qed

definition split_at :: "pixel list \<Rightarrow> int \<Rightarrow> bool" where
  "split_at arr k \<longleftrightarrow>
     (\<forall>i j. in_arr arr i \<longrightarrow> in_arr arr j \<longrightarrow> i < k \<longrightarrow> k \<le> j \<longrightarrow> elem arr i \<le> elem arr j)"

definition placed :: "pixel list \<Rightarrow> int \<Rightarrow> bool" where
  "placed arr k \<longleftrightarrow>
     (\<forall>i. in_arr arr i \<longrightarrow> (i < k \<longrightarrow> elem arr i \<le> elem arr k) \<and> (k < i \<longrightarrow> elem arr k \<le> elem arr i))"

lemma split_at_swap:
  assumes "split_at arr k" "in_arr arr a" "in_arr arr b" "(a < k \<and> b < k) \<or> (k \<le> a \<and> k \<le> b)"
  shows "split_at (ELEM_SWAP arr a b) k"
  unfolding split_at_def
proof (intro allI impI)
  fix i j
  assume ij: "in_arr (ELEM_SWAP arr a b) i" "in_arr (ELEM_SWAP arr a b) j" "i < k" "k \<le> j"
  then have i: "in_arr arr i" and j: "in_arr arr j" by simp_all
  have s: "\<And>i j. in_arr arr i \<Longrightarrow> in_arr arr j \<Longrightarrow> i < k \<Longrightarrow> k \<le> j \<Longrightarrow> elem arr i \<le> elem arr j"
    using assms(1) by (auto simp: split_at_def)
  show "elem (ELEM_SWAP arr a b) i \<le> elem (ELEM_SWAP arr a b) j"
    using assms(4) ij(3,4) s[OF i j] s[OF assms(2) j] s[OF assms(3) j] s[OF i assms(2)] s[OF i assms(3)]
    by (auto simp: elem_swap[OF assms(2,3) i] elem_swap[OF assms(2,3) j])
qed

lemma swaps_in_split_at:
  "swaps_in lo hi a b \<Longrightarrow> split_at a k \<Longrightarrow> k \<le> lo \<or> hi < k \<Longrightarrow> split_at b k"
proof (induction rule: swaps_in.induct)
  case same
  then show ?case by simp
next
  case (step arr' x y)
  then have "split_at arr' k" by simp
  then show ?case using step by (intro split_at_swap) auto
qed

lemma placed_swap:
  assumes "placed arr k" "in_arr arr a" "in_arr arr b" "(a < k \<and> b < k) \<or> (k < a \<and> k < b)" "in_arr arr k"
  shows "placed (ELEM_SWAP arr a b) k"
  unfolding placed_def
proof (intro allI impI)
  fix i
  assume "in_arr (ELEM_SWAP arr a b) i"
  then have i: "in_arr arr i" by simp
  have p: "\<And>i. in_arr arr i \<Longrightarrow> (i < k \<longrightarrow> elem arr i \<le> elem arr k) \<and> (k < i \<longrightarrow> elem arr k \<le> elem arr i)"
    using assms(1) by (auto simp: placed_def)
  show "(i < k \<longrightarrow> elem (ELEM_SWAP arr a b) i \<le> elem (ELEM_SWAP arr a b) k) \<and>
        (k < i \<longrightarrow> elem (ELEM_SWAP arr a b) k \<le> elem (ELEM_SWAP arr a b) i)"
    using assms(4) p[OF i] p[OF assms(2)] p[OF assms(3)]
    by (auto simp: elem_swap[OF assms(2,3) i] elem_swap[OF assms(2,3) assms(5)])
qed

lemma swaps_in_placed:
  "swaps_in lo hi a b \<Longrightarrow> placed a k \<Longrightarrow> in_arr a k \<Longrightarrow> k < lo \<or> hi < k \<Longrightarrow> placed b k"
proof (induction rule: swaps_in.induct)
  case same
  then show ?case by simp
next
  case (step arr' x y)
  then have "placed arr' k" "in_arr arr' k" by (simp_all add: swaps_in_in_arr)
  then show ?case using step by (intro placed_swap) auto
qed

lemma placed_from_window:
  assumes "split_at arr lo" "split_at arr (hi + 1)" "lo \<le> k" "k \<le> hi" "in_arr arr k"
    and l: "\<And>i. lo \<le> i \<Longrightarrow> i < k \<Longrightarrow> elem arr i \<le> elem arr k"
    and r: "\<And>i. k < i \<Longrightarrow> i \<le> hi \<Longrightarrow> elem arr k \<le> elem arr i"
  shows "placed arr k"
  unfolding placed_def
proof (intro allI impI conjI)
  fix i assume i: "in_arr arr i" "i < k"
  show "elem arr i \<le> elem arr k"
  proof (cases "lo \<le> i")
    case True then show ?thesis using l i by simp
  next
    case False
    then show ?thesis using assms(1,3,5) i by (auto simp: split_at_def)
  qed
next
  fix i assume i: "in_arr arr i" "k < i"
  show "elem arr k \<le> elem arr i"
  proof (cases "i \<le> hi")
    case True then show ?thesis using r i by simp
  next
    case False
    then show ?thesis using assms(2,4,5) i by (auto simp: split_at_def)
  qed
qed

subsection \<open>A placed element is the element of that rank\<close>

lemma placed_nth_sort:
  fixes xs :: "'a::linorder list"
  assumes k: "k < length xs"
    and l: "\<And>i. i < k \<Longrightarrow> xs ! i \<le> xs ! k"
    and r: "\<And>i. k < i \<Longrightarrow> i < length xs \<Longrightarrow> xs ! k \<le> xs ! i"
  shows "sort xs ! k = xs ! k"
proof -
  define A where "A = take k xs"
  define B where "B = drop (Suc k) xs"
  have xs: "xs = A @ xs ! k # B" unfolding A_def B_def using k by (simp add: id_take_nth_drop)
  have lenA: "length A = k" unfolding A_def using k by simp
  have a: "\<forall>x\<in>set A. x \<le> xs ! k"
  proof
    fix x assume "x \<in> set A"
    then obtain i where "i < length A" "x = A ! i" by (auto simp: in_set_conv_nth)
    then show "x \<le> xs ! k" using l[of i] lenA by (simp add: A_def)
  qed
  have b: "\<forall>x\<in>set B. xs ! k \<le> x"
  proof
    fix x assume "x \<in> set B"
    then obtain i where i: "i < length B" "x = B ! i" by (auto simp: in_set_conv_nth)
    then have "x = xs ! (Suc k + i)" unfolding B_def by simp
    moreover have "Suc k + i < length xs" using i(1) unfolding B_def by simp
    ultimately show "xs ! k \<le> x" using r[of "Suc k + i"] by simp
  qed
  let ?ys = "sort A @ xs ! k # sort B"
  have "mset ?ys = mset xs" by (subst (2) xs) simp
  moreover have "sorted ?ys" using a b by (auto simp: sorted_append intro: order_trans)
  ultimately have "sort xs = ?ys" by (metis properties_for_sort)
  then show ?thesis using lenA by (simp add: nth_append)
qed

lemma placed_is_rank:
  assumes "placed arr k" "in_arr arr k"
  shows "elem arr k = sort arr ! nat k"
proof -
  have k: "nat k < length arr" using assms(2) by (auto simp: in_arr_def)
  have "sort arr ! nat k = arr ! nat k"
  proof (rule placed_nth_sort[OF k])
    fix i assume "i < nat k"
    then have "in_arr arr (int i)" "int i < k" using k by (auto simp: in_arr_def)
    then show "arr ! i \<le> arr ! nat k" using assms(1) by (auto simp: placed_def elem_def)
  next
    fix i assume "nat k < i" "i < length arr"
    then have "in_arr arr (int i)" "k < int i" by (auto simp: in_arr_def)
    then show "arr ! nat k \<le> arr ! i" using assms(1) by (auto simp: placed_def elem_def)
  qed
  then show ?thesis by (simp add: elem_def)
qed

subsection \<open>The two scans\<close>

lemma scan_up_spec:
  assumes "in_arr arr low" "in_arr arr s" "ll < s" "- 1 \<le> ll" "elem arr low \<le> elem arr s"
  shows "\<exists>ll'. scan_up arr 1 low ll = Some ll' \<and> ll < ll' \<and> ll' \<le> s \<and>
           (\<forall>i. ll < i \<and> i < ll' \<longrightarrow> elem arr i < elem arr low) \<and>
           elem arr low \<le> elem arr ll'"
  using assms(3,4)
proof (induction "nat (s - ll)" arbitrary: ll rule: less_induct)
  case less
  have in1: "in_arr arr (ll + 1)" using less.prems assms(2) by (auto simp: in_arr_def)
  show ?case
  proof (cases "elem arr low > elem arr (ll + 1)")
    case False
    then have "scan_up arr 1 low ll = Some (ll + 1)"
      using assms(1) in1 by (subst scan_up.simps) (simp add: Let_def)
    then show ?thesis using False less.prems by (intro exI[of _ "ll + 1"]) auto
  next
    case True
    then have ne: "ll + 1 \<noteq> s" using assms(5) by auto
    then have lt: "ll + 1 < s" using less.prems by simp
    have rec: "scan_up arr 1 low ll = scan_up arr 1 low (ll + 1)"
      using assms(1) in1 True by (subst scan_up.simps) (simp add: Let_def)
    have "nat (s - (ll + 1)) < nat (s - ll)" using lt by simp
    from less.hyps[OF this lt] less.prems obtain ll' where r:
      "scan_up arr 1 low (ll + 1) = Some ll'" "ll + 1 < ll'" "ll' \<le> s"
      "\<forall>i. ll + 1 < i \<and> i < ll' \<longrightarrow> elem arr i < elem arr low" "elem arr low \<le> elem arr ll'"
      by auto
    have "\<forall>i. ll < i \<and> i < ll' \<longrightarrow> elem arr i < elem arr low"
    proof (intro allI impI)
      fix i assume "ll < i \<and> i < ll'"
      then show "elem arr i < elem arr low" using r(4) True by (cases "i = ll + 1") auto
    qed
    then show ?thesis using r rec by (intro exI[of _ ll']) auto
  qed
qed

lemma scan_down_spec:
  assumes "in_arr arr low" "in_arr arr s" "s < hh" "hh \<le> int (length arr)" "elem arr s \<le> elem arr low"
  shows "\<exists>hh'. scan_down arr 1 low hh = Some hh' \<and> s \<le> hh' \<and> hh' < hh \<and>
           (\<forall>i. hh' < i \<and> i < hh \<longrightarrow> elem arr low < elem arr i) \<and>
           elem arr hh' \<le> elem arr low"
  using assms(3,4)
proof (induction "nat (hh - s)" arbitrary: hh rule: less_induct)
  case less
  have in1: "in_arr arr (hh - 1)" using less.prems assms(2) by (auto simp: in_arr_def)
  show ?case
  proof (cases "elem arr (hh - 1) > elem arr low")
    case False
    then have "scan_down arr 1 low hh = Some (hh - 1)"
      using assms(1) in1 by (subst scan_down.simps) (simp add: Let_def)
    then show ?thesis using False less.prems by (intro exI[of _ "hh - 1"]) auto
  next
    case True
    then have ne: "hh - 1 \<noteq> s" using assms(5) by auto
    then have lt: "s < hh - 1" using less.prems by simp
    have rec: "scan_down arr 1 low hh = scan_down arr 1 low (hh - 1)"
      using assms(1) in1 True by (subst scan_down.simps) (simp add: Let_def)
    have "nat (hh - 1 - s) < nat (hh - s)" using lt by simp
    from less.hyps[OF this lt] less.prems obtain hh' where r:
      "scan_down arr 1 low (hh - 1) = Some hh'" "s \<le> hh'" "hh' < hh - 1"
      "\<forall>i. hh' < i \<and> i < hh - 1 \<longrightarrow> elem arr low < elem arr i" "elem arr hh' \<le> elem arr low"
      by auto
    have "\<forall>i. hh' < i \<and> i < hh \<longrightarrow> elem arr low < elem arr i"
    proof (intro allI impI)
      fix i assume "hh' < i \<and> i < hh"
      then show "elem arr low < elem arr i" using r(4) True by (cases "i = hh - 1") auto
    qed
    then show ?thesis using r rec by (intro exI[of _ hh']) auto
  qed
qed

subsection \<open>The inner loop\<close>

lemma nibble_spec:
  assumes "in_arr arr low" "in_arr arr high"
    and "low + 1 \<le> ll" "ll \<le> hh" "ll < high" "low + 2 \<le> hh" "hh \<le> high"
    and "\<forall>i. low + 1 \<le> i \<and> i \<le> ll \<longrightarrow> elem arr i \<le> elem arr low"
    and "\<forall>i. hh \<le> i \<and> i \<le> high \<longrightarrow> elem arr low \<le> elem arr i"
  shows "\<exists>arr' ll' hh'. nibble arr 1 low ll hh = Some (arr', ll', hh') \<and>
           swaps_in (low + 2) (high - 1) arr arr' \<and>
           low + 1 \<le> hh' \<and> hh' < ll' \<and> ll' \<le> high \<and>
           (\<forall>i. low + 1 \<le> i \<and> i < ll' \<longrightarrow> elem arr' i \<le> elem arr' low) \<and>
           (\<forall>i. hh' < i \<and> i \<le> high \<longrightarrow> elem arr' low \<le> elem arr' i)"
  using assms
proof (induction "nat (hh - ll)" arbitrary: arr ll hh rule: less_induct)
  case less
  note lo = \<open>in_arr arr low\<close> and hi = \<open>in_arr arr high\<close>
  note le = \<open>\<forall>i. low + 1 \<le> i \<and> i \<le> ll \<longrightarrow> elem arr i \<le> elem arr low\<close>
  note ge = \<open>\<forall>i. hh \<le> i \<and> i \<le> high \<longrightarrow> elem arr low \<le> elem arr i\<close>
  have low0: "0 \<le> low" and highN: "high < int (length arr)" using lo hi by (auto simp: in_arr_def)
  define s where "s = (if ll < hh then hh else hh + 1)"
  have s: "ll < s" "s \<le> high" "hh \<le> s" using less.prems by (auto simp: s_def)
  have ins: "in_arr arr s" using s low0 highN less.prems by (auto simp: in_arr_def)
  have "elem arr low \<le> elem arr s" using ge s by auto
  moreover have "- 1 \<le> ll" using low0 less.prems by simp
  ultimately obtain l1 where l1:
    "scan_up arr 1 low ll = Some l1" "ll < l1" "l1 \<le> s"
    "\<forall>i. ll < i \<and> i < l1 \<longrightarrow> elem arr i < elem arr low" "elem arr low \<le> elem arr l1"
    using scan_up_spec[OF lo ins s(1)] by blast
  have in1: "in_arr arr (low + 1)" using low0 highN less.prems by (auto simp: in_arr_def)
  have "elem arr (low + 1) \<le> elem arr low" using le less.prems by auto
  moreover have "low + 1 < hh" "hh \<le> int (length arr)" using less.prems highN by auto
  ultimately obtain h1 where h1:
    "scan_down arr 1 low hh = Some h1" "low + 1 \<le> h1" "h1 < hh"
    "\<forall>i. h1 < i \<and> i < hh \<longrightarrow> elem arr low < elem arr i" "elem arr h1 \<le> elem arr low"
    using scan_down_spec[OF lo in1] by blast
  have le1: "\<forall>i. low + 1 \<le> i \<and> i < l1 \<longrightarrow> elem arr i \<le> elem arr low"
  proof (intro allI impI)
    fix i assume i: "low + 1 \<le> i \<and> i < l1"
    show "elem arr i \<le> elem arr low"
    proof (cases "i \<le> ll")
      case True then show ?thesis using le i by auto
    next
      case False then show ?thesis using l1(4) i by (auto simp: less_imp_le)
    qed
  qed
  have ge1: "\<forall>i. h1 < i \<and> i \<le> high \<longrightarrow> elem arr low \<le> elem arr i"
  proof (intro allI impI)
    fix i assume i: "h1 < i \<and> i \<le> high"
    show "elem arr low \<le> elem arr i"
    proof (cases "hh \<le> i")
      case True then show ?thesis using ge i by auto
    next
      case False then show ?thesis using h1(4) i by (auto simp: less_imp_le)
    qed
  qed
  show ?case
  proof (cases "h1 < l1")
    case True
    have "nibble arr 1 low ll hh = Some (arr, l1, h1)"
      using l1(1) h1(1) True by (subst nibble.simps) simp
    moreover have "l1 \<le> high" using l1(3) s(2) by simp
    ultimately show ?thesis using h1(2) True le1 ge1 swaps_in.same[of "low + 2" "high - 1" arr]
      by (intro exI[of _ arr] exI[of _ l1] exI[of _ h1]) simp
  next
    case False
    define arr1 where "arr1 = ELEM_SWAP arr l1 h1"
    have b: "low + 2 \<le> l1" "l1 \<le> h1" "h1 \<le> high - 1" using False l1(2) h1(3) less.prems by auto
    have inl: "in_arr arr l1" and inh: "in_arr arr h1"
      using b low0 highN by (auto simp: in_arr_def)
    have sw: "swaps_in (low + 2) (high - 1) arr arr1"
      unfolding arr1_def using b inl inh by (intro swaps_in_one) auto
    have rec: "nibble arr 1 low ll hh = nibble arr1 1 low l1 h1"
      using l1(1) h1(1) False by (subst nibble.simps) (simp add: arr1_def)
    have e: "elem arr1 i = (if i = h1 then elem arr l1 else if i = l1 then elem arr h1 else elem arr i)"
      if "in_arr arr i" for i
      unfolding arr1_def by (rule elem_swap[OF inl inh that])
    have pivot: "elem arr1 low = elem arr low" using e[OF lo] b by auto
    have inarr: "in_arr arr i" if "low + 1 \<le> i" "i \<le> high" for i
      using that low0 highN by (auto simp: in_arr_def)
    have le2: "\<forall>i. low + 1 \<le> i \<and> i \<le> l1 \<longrightarrow> elem arr1 i \<le> elem arr1 low"
    proof (intro allI impI)
      fix i assume i: "low + 1 \<le> i \<and> i \<le> l1"
      then have "in_arr arr i" using b by (intro inarr) auto
      then show "elem arr1 i \<le> elem arr1 low"
        using e[of i] pivot i b h1(5) le1 by (cases "i = l1") auto
    qed
    have ge2: "\<forall>i. h1 \<le> i \<and> i \<le> high \<longrightarrow> elem arr1 low \<le> elem arr1 i"
    proof (intro allI impI)
      fix i assume i: "h1 \<le> i \<and> i \<le> high"
      then have "in_arr arr i" using b h1(2) by (intro inarr) auto
      then show "elem arr1 low \<le> elem arr1 i"
        using e[of i] pivot i b l1(5) ge1 by (cases "i = h1") auto
    qed
    have m: "nat (h1 - l1) < nat (hh - ll)" using b l1(2) h1(3) by auto
    have "in_arr arr1 low" "in_arr arr1 high" using lo hi by (simp_all add: arr1_def)
    from less.hyps[OF m this _ b(2) _ _ _ le2 ge2] b
    obtain arr' ll' hh' where r:
      "nibble arr1 1 low l1 h1 = Some (arr', ll', hh')"
      "swaps_in (low + 2) (high - 1) arr1 arr'"
      "low + 1 \<le> hh'" "hh' < ll'" "ll' \<le> high"
      "\<forall>i. low + 1 \<le> i \<and> i < ll' \<longrightarrow> elem arr' i \<le> elem arr' low"
      "\<forall>i. hh' < i \<and> i \<le> high \<longrightarrow> elem arr' low \<le> elem arr' i"
      by auto
    have "swaps_in (low + 2) (high - 1) arr arr'" using swaps_in_trans[OF r(2) sw] .
    then show ?thesis using r rec by (intro exI[of _ arr'] exI[of _ ll'] exI[of _ hh']) simp
  qed
qed

subsection \<open>The outer loop\<close>

lemma c_div_2: "0 \<le> a \<Longrightarrow> c_div a 2 = a div 2"
  by (cases "a = 0") (simp_all add: c_div_def)

lemma swap_if_gt_elem:
  assumes "in_arr arr a" "in_arr arr b" "a \<noteq> b"
  shows "elem (swap_if_gt arr a b) a = min (elem arr a) (elem arr b)"
    and "elem (swap_if_gt arr a b) b = max (elem arr a) (elem arr b)"
    and "in_arr arr i \<Longrightarrow> i \<noteq> a \<Longrightarrow> i \<noteq> b \<Longrightarrow> elem (swap_if_gt arr a b) i = elem arr i"
  using assms(3)
  by (auto simp: swap_if_gt_def elem_swap[OF assms(1,2) assms(1)] elem_swap[OF assms(1,2) assms(2)]
      elem_swap[OF assms(1,2)] min_def max_def)

lemma select_loop_spec:
  assumes "split_at arr low" "split_at arr (high + 1)" "0 \<le> low" "high < int (length arr)"
    and "in_arr arr median" "(low \<le> median \<and> median \<le> high) \<or> placed arr median"
  shows "\<exists>arr'. select_loop arr 1 median low high = Some (elem arr' median, arr') \<and>
           mset arr' = mset arr \<and> placed arr' median"
  using assms
proof (induction "nat (high - low)" arbitrary: arr low high rule: less_induct)
  case less
  note sl = \<open>split_at arr low\<close> and sh = \<open>split_at arr (high + 1)\<close>
  note low0 = \<open>0 \<le> low\<close> and highN = \<open>high < int (length arr)\<close>
  note med = \<open>in_arr arr median\<close> and pos = \<open>low \<le> median \<and> median \<le> high \<or> placed arr median\<close>
  consider (one) "high \<le> low" | (two) "high = low + 1" | (more) "low + 2 \<le> high" by linarith
  then show ?case
  proof cases
    case one
    have r: "select_loop arr 1 median low high = Some (elem arr median, arr)"
      using one med by (subst select_loop.simps) simp
    have "placed arr median"
    proof (cases "low \<le> median \<and> median \<le> high")
      case True
      then have "median = low" "median = high" using one by auto
      then show ?thesis using sl sh med by (intro placed_from_window[of arr low high]) auto
    next
      case False then show ?thesis using pos by auto
    qed
    then show ?thesis using r by (intro exI[of _ arr]) simp
  next
    case two
    have inl: "in_arr arr low" and inh: "in_arr arr high"
      using low0 highN two by (auto simp: in_arr_def)
    define arr1 where "arr1 = swap_if_gt arr low high"
    have sw: "swaps_in low high arr arr1"
      unfolding arr1_def using inl inh two by (intro swaps_in_if) auto
    have med1: "in_arr arr1 median" using med by (simp add: arr1_def)
    have r: "select_loop arr 1 median low high = Some (elem arr1 median, arr1)"
      using two inl inh med1 by (subst select_loop.simps) (simp add: arr1_def Let_def)
    have "low \<noteq> high" using two by simp
    then have ord: "elem arr1 low \<le> elem arr1 high"
      unfolding arr1_def by (simp add: swap_if_gt_elem[OF inl inh] min_le_iff_disj le_max_iff_disj)
    have sl1: "split_at arr1 low" using swaps_in_split_at[OF sw sl] by simp
    have sh1: "split_at arr1 (high + 1)" using swaps_in_split_at[OF sw sh] by simp
    have "placed arr1 median"
    proof (cases "low \<le> median \<and> median \<le> high")
      case True
      then consider "median = low" | "median = high" using two by linarith
      then show ?thesis
      proof cases
        case 1
        show ?thesis
        proof (rule placed_from_window[OF sl1 sh1 _ _ med1])
          fix i assume "median < i" "i \<le> high"
          then have "i = high" using 1 two by simp
          then show "elem arr1 median \<le> elem arr1 i" using ord 1 by simp
        qed (use 1 two in auto)
      next
        case 2
        show ?thesis
        proof (rule placed_from_window[OF sl1 sh1 _ _ med1])
          fix i assume "low \<le> i" "i < median"
          then have "i = low" using 2 two by simp
          then show "elem arr1 i \<le> elem arr1 median" using ord 2 by simp
        qed (use 2 two in auto)
      qed
    next
      case False
      then have "placed arr median" "median < low \<or> high < median" using pos by auto
      then show ?thesis using swaps_in_placed[OF sw _ med] by simp
    qed
    then show ?thesis using r swaps_in_mset[OF sw] by (intro exI[of _ arr1]) simp
  next
    case more
    define middle where "middle = c_div (low + high) 2"
    have mid: "low + 1 \<le> middle" "middle \<le> high - 1"
      using more low0 by (simp_all add: middle_def c_div_2)
    have inA: "in_arr arr i" if "low \<le> i" "i \<le> high" for i
      using that low0 highN by (auto simp: in_arr_def)
    have inl: "in_arr arr low" and inh: "in_arr arr high" and inm: "in_arr arr middle"
      and inl1: "in_arr arr (low + 1)"
      using more mid by (auto intro: inA)
    define a1 where "a1 = swap_if_gt arr middle high"
    define a2 where "a2 = swap_if_gt a1 low high"
    define a3 where "a3 = swap_if_gt a2 middle low"
    define a4 where "a4 = ELEM_SWAP a3 middle (low + 1)"
    have in1: "in_arr a1 i = in_arr arr i" for i by (simp add: a1_def)
    have in2: "in_arr a2 i = in_arr arr i" for i by (simp add: a2_def in1)
    have in3: "in_arr a3 i = in_arr arr i" for i by (simp add: a3_def in2)
    have in4: "in_arr a4 i = in_arr arr i" for i by (simp add: a4_def in3)
    have s1: "swaps_in low high arr a1"
      unfolding a1_def using mid more inm inh by (intro swaps_in_if) auto
    have s2: "swaps_in low high a1 a2"
      unfolding a2_def using mid more inl inh by (intro swaps_in_if) (auto simp: in1)
    have s3: "swaps_in low high a2 a3"
      unfolding a3_def using mid more inl inm by (intro swaps_in_if) (auto simp: in2)
    have s4: "swaps_in low high a3 a4"
      unfolding a4_def using mid more inl1 inm by (intro swaps_in_one) (auto simp: in3)
    have s04: "swaps_in low high arr a4"
      using swaps_in_trans[OF s4 swaps_in_trans[OF s3 swaps_in_trans[OF s2 s1]]] .
    have ne: "middle \<noteq> high" "low \<noteq> high" "middle \<noteq> low" "low \<noteq> middle" "high \<noteq> middle"
      "high \<noteq> low" "low + 1 \<noteq> low" "low + 1 \<noteq> high" "low \<noteq> low + 1" "high \<noteq> low + 1"
      using mid more by auto
    note w1 = swap_if_gt_elem[OF inm inh ne(1), folded a1_def]
    have inl_1: "in_arr a1 low" "in_arr a1 high" "in_arr a1 middle" using inl inh inm by (simp_all add: in1)
    note w2 = swap_if_gt_elem[OF inl_1(1,2) ne(2), folded a2_def]
    have inl_2: "in_arr a2 low" "in_arr a2 high" "in_arr a2 middle" using inl inh inm by (simp_all add: in2)
    note w3 = swap_if_gt_elem[OF inl_2(3,1) ne(3), folded a3_def]
    have inl_3: "in_arr a3 low" "in_arr a3 high" "in_arr a3 middle" "in_arr a3 (low + 1)"
      using inl inh inm inl1 by (simp_all add: in3)
    have e1: "elem a1 middle \<le> elem a1 high" by (simp add: w1 min_le_iff_disj le_max_iff_disj)
    have e2: "elem a2 low \<le> elem a2 high" "elem a2 middle \<le> elem a2 high"
      using e1 w2(3)[OF inl_1(3) ne(3) ne(1)] by (auto simp: w2(1,2) min_le_iff_disj le_max_iff_disj)
    have e3: "elem a3 middle \<le> elem a3 low" "elem a3 low \<le> elem a3 high"
      using e2 w3(3)[OF inl_2(2) ne(5) ne(6)] by (auto simp: w3(1,2) min_le_iff_disj le_max_iff_disj)
    have e4: "elem a4 (low + 1) \<le> elem a4 low" "elem a4 low \<le> elem a4 high"
      unfolding a4_def using e3 ne
      by (simp_all add: elem_swap[OF inl_3(3,4) inl_3(1)] elem_swap[OF inl_3(3,4) inl_3(2)]
          elem_swap[OF inl_3(3,4) inl_3(4)])
    have "\<forall>i. low + 1 \<le> i \<and> i \<le> low + 1 \<longrightarrow> elem a4 i \<le> elem a4 low" using e4(1) by auto
    moreover have "\<forall>i. high \<le> i \<and> i \<le> high \<longrightarrow> elem a4 low \<le> elem a4 i" using e4(2) by auto
    moreover have "in_arr a4 low" "in_arr a4 high" using inl inh by (simp_all add: in4)
    moreover have "low + 1 \<le> low + 1" "low + 1 \<le> high" "low + 1 < high" "low + 2 \<le> high" "high \<le> high"
      using more by auto
    ultimately obtain a5 ll hh where n:
      "nibble a4 1 low (low + 1) high = Some (a5, ll, hh)"
      "swaps_in (low + 2) (high - 1) a4 a5"
      "low + 1 \<le> hh" "hh < ll" "ll \<le> high"
      "\<forall>i. low + 1 \<le> i \<and> i < ll \<longrightarrow> elem a5 i \<le> elem a5 low"
      "\<forall>i. hh < i \<and> i \<le> high \<longrightarrow> elem a5 low \<le> elem a5 i"
      using nibble_spec[of a4 low high "low + 1" high] by blast
    have s45: "swaps_in low high a4 a5" using swaps_in_mono[OF n(2)] by simp
    have in5: "in_arr a5 i = in_arr arr i" for i using swaps_in_in_arr[OF s45] in4 by simp
    define a6 where "a6 = ELEM_SWAP a5 low hh"
    have hhb: "low \<le> hh" "hh \<le> high" using n(3,4,5) by auto
    have inl5: "in_arr a5 low" and inhh5: "in_arr a5 hh"
      using inl inA[OF hhb] by (simp_all add: in5)
    have s56: "swaps_in low high a5 a6"
      unfolding a6_def using hhb more inl5 inhh5 by (intro swaps_in_one) auto
    have s06: "swaps_in low high arr a6"
      using swaps_in_trans[OF s56 swaps_in_trans[OF s45 s04]] .
    have in6: "in_arr a6 i = in_arr arr i" for i using swaps_in_in_arr[OF s06] by simp
    define p where "p = elem a5 low"
    have e6: "elem a6 i = (if i = hh then p else if i = low then elem a5 hh else elem a5 i)"
      if "low \<le> i" "i \<le> high" for i
      unfolding a6_def p_def using elem_swap[OF inl5 inhh5, of i] inA[OF that] by (simp add: in5)
    have hhp: "elem a5 hh \<le> p" unfolding p_def using n(3,4,6) by auto
    have left: "elem a6 i \<le> p" if "low \<le> i" "i < ll" for i
    proof -
      have "i \<le> high" using that n(5) by simp
      then show ?thesis using e6[of i] that hhp n(6) unfolding p_def by auto
    qed
    have right: "p \<le> elem a6 i" if "hh \<le> i" "i \<le> high" for i
    proof -
      have "low \<le> i" using that hhb by simp
      then show ?thesis using e6[of i] that n(3,7) unfolding p_def by auto
    qed
    have sl6: "split_at a6 low" using swaps_in_split_at[OF s06 sl] by simp
    have sh6: "split_at a6 (high + 1)" using swaps_in_split_at[OF s06 sh] by simp
    define low' where "low' = (if hh \<le> median then ll else low)"
    define high' where "high' = (if hh \<ge> median then hh - 1 else high)"
    have rec: "select_loop arr 1 median low high = select_loop a6 1 median low' high'"
      using more inl inh inm inl1 n(1)
      by (subst select_loop.simps)
         (simp add: Let_def middle_def[symmetric] a1_def[symmetric] a2_def[symmetric]
            a3_def[symmetric] a4_def[symmetric] a6_def[symmetric] low'_def high'_def)
    have sl': "split_at a6 low'"
    proof (cases "hh \<le> median")
      case False then show ?thesis using sl6 by (simp add: low'_def)
    next
      case True
      have "split_at a6 ll"
        unfolding split_at_def
      proof (intro allI impI)
        fix i j assume ij: "in_arr a6 i" "in_arr a6 j" "i < ll" "ll \<le> j"
        have jp: "p \<le> elem a6 j" if "j \<le> high" using right[of j] that ij(4) n(4) by simp
        have ip: "elem a6 i \<le> p" if "low \<le> i" using left[of i] that ij(3) by simp
        show "elem a6 i \<le> elem a6 j"
        proof (cases "low \<le> i")
          case False
          then show ?thesis using sl6 ij n(3,4) by (auto simp: split_at_def)
        next
          case li: True
          show ?thesis
          proof (cases "j \<le> high")
            case True
            show ?thesis by (rule order_trans[OF ip[OF li] jp[OF True]])
          next
            case False
            then show ?thesis using sh6 ij n(5) by (auto simp: split_at_def)
          qed
        qed
      qed
      then show ?thesis using True by (simp add: low'_def)
    qed
    have sh': "split_at a6 (high' + 1)"
    proof (cases "hh \<ge> median")
      case False then show ?thesis using sh6 by (simp add: high'_def)
    next
      case True
      have "split_at a6 hh"
        unfolding split_at_def
      proof (intro allI impI)
        fix i j assume ij: "in_arr a6 i" "in_arr a6 j" "i < hh" "hh \<le> j"
        have jp: "p \<le> elem a6 j" if "j \<le> high" using right[of j] that ij(4) by simp
        have ip: "elem a6 i \<le> p" if "low \<le> i" using left[of i] that ij(3) n(4) by simp
        show "elem a6 i \<le> elem a6 j"
        proof (cases "low \<le> i")
          case False
          then show ?thesis using sl6 ij hhb by (auto simp: split_at_def)
        next
          case li: True
          show ?thesis
          proof (cases "j \<le> high")
            case True
            show ?thesis by (rule order_trans[OF ip[OF li] jp[OF True]])
          next
            case False
            then show ?thesis using sh6 ij hhb by (auto simp: split_at_def)
          qed
        qed
      qed
      then show ?thesis using True by (simp add: high'_def)
    qed
    have med6: "in_arr a6 median" using med by (simp add: in6)
    have pos': "(low' \<le> median \<and> median \<le> high') \<or> placed a6 median"
    proof (cases "low \<le> median \<and> median \<le> high")
      case False
      then have "placed arr median" "median < low \<or> high < median" using pos by auto
      then show ?thesis using swaps_in_placed[OF s06 _ med] by simp
    next
      case inside: True
      show ?thesis
      proof (cases "low' \<le> median \<and> median \<le> high'")
        case True then show ?thesis by simp
      next
        case False
        then have range: "hh \<le> median" "median < ll"
          using inside n(4) by (auto simp: low'_def high'_def split: if_splits)
        have pm: "elem a6 median = p"
          using left[of median] right[of median] range inside by (simp add: order_antisym)
        have "placed a6 median"
        proof (rule placed_from_window[OF sl6 sh6 _ _ med6])
          fix i assume "low \<le> i" "i < median"
          then show "elem a6 i \<le> elem a6 median" using left[of i] range pm by simp
        next
          fix i assume "median < i" "i \<le> high"
          then show "elem a6 median \<le> elem a6 i" using right[of i] range pm by simp
        qed (use inside in auto)
        then show ?thesis by simp
      qed
    qed
    have low'0: "0 \<le> low'" using low0 n(3,4) by (simp add: low'_def)
    have high'N: "high' < int (length a6)"
      using highN hhb swaps_in_length[OF s06] by (simp add: high'_def)
    have dec: "nat (high' - low') < nat (high - low)"
      using more n(3,4,5) by (auto simp: low'_def high'_def)
    from less.hyps[OF dec sl' sh' low'0 high'N med6 pos']
    obtain arr' where r: "select_loop a6 1 median low' high' = Some (elem arr' median, arr')"
      "mset arr' = mset a6" "placed arr' median" by blast
    show ?thesis
      using r rec swaps_in_mset[OF s06] by (intro exI[of _ arr']) simp
  qed
qed

text \<open>
  The selection run by \<^verbatim>\<open>medianCalculation\<close> with stride 1 ends, and ends on the element
  of rank \<open>(n - 1) div 2\<close>.
\<close>

lemma medianCalculation_selects:
  assumes "1 \<le> length arr" and "length arr \<le> 2 ^ 30"
  shows "\<exists>arr'. medianCalculation arr (length arr) 1 =
                  Some (sort arr ! ((length arr - 1) div 2), arr') \<and>
               mset arr' = mset arr"
proof -
  define n where "n = length arr"
  define median where "median = int ((n - 1) div 2)"
  have n1: "1 \<le> n" using assms(1) by (simp add: n_def)
  have cd: "c_div (0 + (int n - 1)) 2 = median"
    using n1 by (simp add: c_div_2 median_def zdiv_int of_nat_diff)
  have mc: "medianCalculation arr n 1 = select_loop arr 1 median 0 (int n - 1)"
    unfolding medianCalculation_def Let_def using cd by simp
  have med: "in_arr arr median" using n1 by (auto simp: in_arr_def median_def n_def)
  have s0: "split_at arr 0" by (simp add: split_at_def in_arr_def)
  have sn: "split_at arr (int n - 1 + 1)" by (simp add: split_at_def in_arr_def n_def)
  have rng: "0 \<le> median \<and> median \<le> int n - 1" using n1 by (auto simp: median_def)
  from select_loop_spec[OF s0 sn _ _ med] rng
  obtain arr' where r: "select_loop arr 1 median 0 (int n - 1) = Some (elem arr' median, arr')"
    "mset arr' = mset arr" "placed arr' median"
    by (auto simp: n_def)
  have "length arr' = length arr" using r(2) by (metis size_mset)
  then have med': "in_arr arr' median" using med by (simp add: in_arr_def)
  have "elem arr' median = sort arr' ! nat median" by (rule placed_is_rank[OF r(3) med'])
  also have "sort arr' = sort arr" using r(2) by (metis sorted_list_of_multiset_mset)
  finally have "elem arr' median = sort arr ! ((n - 1) div 2)" by (simp add: median_def)
  then show ?thesis using mc r by (auto simp: n_def)
qed

text \<open>
  Claim C8.  For an array of \<open>n\<close> elements, \<open>1 \<le> n\<close> (and \<open>n \<le> 2 ^ 30\<close>, see above), and
  stride 1, \<^verbatim>\<open>medianCalculation\<close> returns, and the value returned is the element at index
  \<open>(n - 1) div 2\<close> of the sorted array, the lower median.  The array it leaves behind is
  a rearrangement of the one it was given; the exchanges of the partition steps are all it
  does to it.
\<close>

theorem medianCalculation_lower_median:
  assumes "1 \<le> length arr" and "length arr \<le> 2 ^ 30"
  shows "\<exists>arr'. medianCalculation arr (length arr) 1 =
                  Some (sort arr ! ((length arr - 1) div 2), arr') \<and>
               mset arr' = mset arr"
  using assms by (rule medianCalculation_selects)

theorem medianCalculation_lower_median_witness:
  "\<exists>arr'. medianCalculation [5, 3, 9, 1, 7] 5 1 = Some (5, arr') \<and>
          mset arr' = mset [5, 3, 9, 1, 7]"
proof -
  let ?a = "[5, 3, 9, 1, 7] :: pixel list"
  have a: "\<exists>arr'. medianCalculation ?a (length ?a) 1 =
                  Some (sort ?a ! ((length ?a - 1) div 2), arr') \<and> mset arr' = mset ?a"
    by (rule medianCalculation_lower_median) simp_all
  have s: "sort ?a ! ((5 - 1) div 2) = 5" by code_simp
  have l: "length ?a = 5" by simp
  show ?thesis using a unfolding l s .
qed

section \<open>The frame callback\<close>

text \<open>
  \<^verbatim>\<open>callbackTauImage\<close> runs on every frame the camera delivers.  The Tau server and the
  stand-alone program \<^verbatim>\<open>taucamLocal.cc\<close> have the same function but for the statement in
  the loop over the pixels: the server stores the pixel, the stand-alone program adds the
  pixel less the median.  \<open>callback_with\<close> is the function with that statement as a
  parameter of the frame's median, the accumulator entry and the pixel.  The accumulator
  holds C \<^verbatim>\<open>int\<close>s, modelled as integers; a frame shorter than \<^verbatim>\<open>width * height\<close> pixels
  makes \<^verbatim>\<open>memcpy\<close> read past its end, the fault \<open>BadCopy\<close>.
\<close>

record bitmap =
  bm_width :: nat
  bm_height :: nat
  bm_data :: "pixel list"

definition frame_median :: "nat \<Rightarrow> bitmap \<Rightarrow> fault + pixel" where
  "frame_median n bm =
     (if length (bm_data bm) < n then Inl BadCopy
      else case medianCalculation (take n (bm_data bm)) n 1 of
             None \<Rightarrow> Inl BadIndex
           | Some (median, image_copy) \<Rightarrow> Inr median)"

definition callback_with ::
  "(pixel \<Rightarrow> int \<Rightarrow> pixel \<Rightarrow> int) \<Rightarrow> tau_server_info \<Rightarrow> bitmap \<Rightarrow> fault + tau_server_info" where
  "callback_with body si bm =
     (let si = (if stack_data si = None
                then si\<lparr>frame_count := 0, width := bm_width bm, height := bm_height bm,
                        stack_data := Some (replicate (bm_width bm * bm_height bm) 0)\<rparr>
                else si)
      in if bm_width bm \<noteq> width si \<or> bm_height bm \<noteq> height si then Inr si
         else
           (let n = width si * height si;
                si = (if exp_start_ts si = 0
                      then si\<lparr>frame_count := 0, stack_data := Some (replicate n 0)\<rparr>
                      else si)
            in case frame_median n bm of
                 Inl e \<Rightarrow> Inl e
               | Inr median \<Rightarrow>
                   (case stack_data si of
                      None \<Rightarrow> Inl NullCopy
                    | Some stack \<Rightarrow>
                        Inr (si\<lparr>stack_data := Some (map2 (body median) stack (take n (bm_data bm))),
                                frame_count := frame_count si + 1\<rparr>))))"

definition callbackTauImage :: "tau_server_info \<Rightarrow> bitmap \<Rightarrow> fault + tau_server_info" where
  "callbackTauImage = callback_with (\<lambda>median acc px. uint px)"

definition callbackTauImage_local :: "tau_server_info \<Rightarrow> bitmap \<Rightarrow> fault + tau_server_info" where
  "callbackTauImage_local = callback_with (\<lambda>median acc px. acc + (uint px - uint median))"

fun deliver ::
  "(tau_server_info \<Rightarrow> bitmap \<Rightarrow> fault + tau_server_info) \<Rightarrow> tau_server_info \<Rightarrow> bitmap list \<Rightarrow>
     fault + tau_server_info" where
  "deliver cb si [] = Inr si"
| "deliver cb si (bm # bms) =
     (case cb si bm of Inl e \<Rightarrow> Inl e | Inr si' \<Rightarrow> deliver cb si' bms)"

text \<open>
  What the description of the callback asks for: the lower median of a frame, the frame
  with that median subtracted from every pixel, and the sum of two buffers.
\<close>

definition lower_median :: "pixel list \<Rightarrow> pixel" where
  "lower_median xs = sort xs ! ((length xs - 1) div 2)"

definition median_subtracted :: "bitmap \<Rightarrow> int list" where
  "median_subtracted bm = map (\<lambda>px. uint px - uint (lower_median (bm_data bm))) (bm_data bm)"

definition add_frame :: "int list \<Rightarrow> int list \<Rightarrow> int list" where
  "add_frame acc fr = map2 (+) acc fr"

lemma frame_median_value:
  assumes "length (bm_data bm) = n" "1 \<le> n" "n \<le> 2 ^ 30"
  shows "frame_median n bm = Inr (lower_median (bm_data bm))"
proof -
  have l: "1 \<le> length (bm_data bm)" "length (bm_data bm) \<le> 2 ^ 30" using assms by simp_all
  obtain arr' where "medianCalculation (bm_data bm) (length (bm_data bm)) 1 =
      Some (sort (bm_data bm) ! ((length (bm_data bm) - 1) div 2), arr')"
    using medianCalculation_selects[OF l] by blast
  then show ?thesis using assms(1) by (simp add: frame_median_def lower_median_def)
qed

lemma callback_with_step:
  assumes "exp_start_ts si \<noteq> 0" "stack_data si = Some stack"
    and "width si * height si = n" "1 \<le> n" "n \<le> 2 ^ 30"
    and "bm_width bm = width si" "bm_height bm = height si" "length (bm_data bm) = n"
  shows "callback_with body si bm =
           Inr (si\<lparr>stack_data := Some (map2 (body (lower_median (bm_data bm))) stack (bm_data bm)),
                   frame_count := frame_count si + 1\<rparr>)"
  using assms frame_median_value[OF assms(8,4,5)]
  by (simp add: callback_with_def Let_def)

lemma local_body:
  "length stack = length (bm_data bm) \<Longrightarrow>
   map2 (\<lambda>acc px. acc + (uint px - uint (lower_median (bm_data bm)))) stack (bm_data bm) =
     add_frame stack (median_subtracted bm)"
  by (simp add: add_frame_def median_subtracted_def zip_map2 split_def)

text \<open>
  Claim C2, on the Tau server.  Two frames of two pixels, \<open>[10, 30]\<close> then \<open>[20, 50]\<close>,
  are delivered within one exposure window (the exposure-start time stamp is 100) to an
  accumulator of zeros.  The frame count ends at 2, but the accumulator holds the raw
  pixels of the last frame, \<open>[20, 50]\<close>; the sum of the two median-subtracted frames is
  \<open>[0, 50]\<close>.
\<close>

theorem server_callback_overwrites_accumulator:
  "deliver callbackTauImage
     \<lparr>tgr_gain_mode = None, gain = GAIN_AUTO, etime = Fin 1, width = 2, height = 1,
      stack_data = Some [0, 0], frame_count = 0, exp_start_ts = 100\<rparr>
     [\<lparr>bm_width = 2, bm_height = 1, bm_data = [10, 30]\<rparr>,
      \<lparr>bm_width = 2, bm_height = 1, bm_data = [20, 50]\<rparr>] =
   Inr \<lparr>tgr_gain_mode = None, gain = GAIN_AUTO, etime = Fin 1, width = 2, height = 1,
        stack_data = Some [20, 50], frame_count = 2, exp_start_ts = 100\<rparr> \<and>
   foldl add_frame [0, 0]
     (map median_subtracted
        [\<lparr>bm_width = 2, bm_height = 1, bm_data = [10, 30]\<rparr>,
         \<lparr>bm_width = 2, bm_height = 1, bm_data = [20, 50]\<rparr>]) = [0, 50]"
  by code_simp

text \<open>
  The stand-alone program's callback does accumulate: \<open>N\<close> frames of the established size
  delivered within one exposure window add their median-subtracted pixels to the
  accumulator and raise the frame count by \<open>N\<close>.
\<close>

theorem local_callbacks_accumulate:
  assumes "exp_start_ts si \<noteq> 0" "stack_data si = Some stack" "length stack = width si * height si"
    and "1 \<le> width si * height si" "width si * height si \<le> 2 ^ 30"
    and "\<forall>bm\<in>set frames. bm_width bm = width si \<and> bm_height bm = height si \<and>
                          length (bm_data bm) = width si * height si"
  shows "deliver callbackTauImage_local si frames =
           Inr (si\<lparr>stack_data := Some (foldl add_frame stack (map median_subtracted frames)),
                   frame_count := frame_count si + of_nat (length frames)\<rparr>)"
  using assms
proof (induction frames arbitrary: si stack)
  case Nil
  then show ?case by simp
next
  case (Cons bm frames)
  define n where "n = width si * height si"
  define si1 where "si1 = si\<lparr>stack_data := Some (add_frame stack (median_subtracted bm)),
                              frame_count := frame_count si + 1\<rparr>"
  have bm: "bm_width bm = width si" "bm_height bm = height si" "length (bm_data bm) = n"
    using Cons.prems(6) by (simp_all add: n_def)
  have step: "callbackTauImage_local si bm = Inr si1"
    unfolding callbackTauImage_local_def si1_def
    using callback_with_step[OF Cons.prems(1,2) n_def[symmetric] _ _ bm, of "\<lambda>median acc px. acc + (uint px - uint median)"]
      Cons.prems(3,4,5) local_body[of stack bm] bm(3)
    by (simp add: n_def)
  have len: "length (add_frame stack (median_subtracted bm)) = width si1 * height si1"
    using Cons.prems(3) bm(3) by (simp add: add_frame_def median_subtracted_def si1_def n_def)
  have rest: "deliver callbackTauImage_local si1 frames =
           Inr (si1\<lparr>stack_data := Some (foldl add_frame (add_frame stack (median_subtracted bm))
                                          (map median_subtracted frames)),
                   frame_count := frame_count si1 + of_nat (length frames)\<rparr>)"
    using Cons.prems len by (intro Cons.IH) (simp_all add: si1_def)
  show ?case using step rest by (simp add: si1_def add.assoc)
qed

theorem local_callbacks_accumulate_witness:
  "deliver callbackTauImage_local
     \<lparr>tgr_gain_mode = None, gain = GAIN_AUTO, etime = Fin 1, width = 2, height = 1,
      stack_data = Some [0, 0], frame_count = 0, exp_start_ts = 100\<rparr>
     [\<lparr>bm_width = 2, bm_height = 1, bm_data = [10, 30]\<rparr>,
      \<lparr>bm_width = 2, bm_height = 1, bm_data = [20, 50]\<rparr>] =
   Inr \<lparr>tgr_gain_mode = None, gain = GAIN_AUTO, etime = Fin 1, width = 2, height = 1,
        stack_data = Some [0, 50], frame_count = 2, exp_start_ts = 100\<rparr>"
proof -
  have s: "foldl add_frame [0, 0]
     (map median_subtracted
        [\<lparr>bm_width = 2, bm_height = 1, bm_data = [10, 30]\<rparr>,
         \<lparr>bm_width = 2, bm_height = 1, bm_data = [20, 50]\<rparr>]) = [0, 50]"
    by code_simp
  show ?thesis
    using local_callbacks_accumulate[of
        "\<lparr>tgr_gain_mode = None, gain = GAIN_AUTO, etime = Fin 1, width = 2, height = 1,
          stack_data = Some [0, 0], frame_count = 0, exp_start_ts = 100\<rparr>"
        "[0, 0]"
        "[\<lparr>bm_width = 2, bm_height = 1, bm_data = [10, 30]\<rparr>,
          \<lparr>bm_width = 2, bm_height = 1, bm_data = [20, 50]\<rparr>]"]
    unfolding s by simp
qed

section \<open>The exposure phase of the image command\<close>

text \<open>
  \<^verbatim>\<open>takeImage\<close> of the Tau server up to the end of its wait loop.  The camera's callbacks
  run on another thread while the loop sleeps; the model takes what the environment does
  as an input: whether the temporary file could be opened, the two readings of the clock
  at the start, and for every turn of the loop the frames delivered during the sleep, the
  reading of the clock in the timeout test, the frames delivered between that test and
  the loop condition, and the reading of the clock in the loop condition.  The
  result says how the phase ended, with the session state and the reply written, if any;
  \<open>Waiting\<close> is a loop still turning when the recorded turns end.  Clearing an accumulator
  that was never allocated is the fault \<open>NullCopy\<close>.
\<close>

definition EXPOSE_TIMEOUT :: double where
  "EXPOSE_TIMEOUT = d_of_int 5"

datatype exposure = Unstarted | Waiting | Timeout | Exposed

fun wait_exposure ::
  "tau_server_info \<Rightarrow> double \<Rightarrow> (bitmap list \<times> rat \<times> bitmap list \<times> rat) list \<Rightarrow>
     fault + (exposure \<times> tau_server_info)" where
  "wait_exposure si stop_ts [] = Inr (Waiting, si)"
| "wait_exposure si stop_ts ((frames, clock1, frames', clock2) # env) =
     (case deliver callbackTauImage si frames of
        Inl e \<Rightarrow> Inl e
      | Inr si \<Rightarrow>
          if frame_count si = 0 \<and>
             dlt (dadd (Fin (exp_start_ts si)) EXPOSE_TIMEOUT) (Fin clock1) then Inr (Timeout, si)
          else
            (case deliver callbackTauImage si frames' of
               Inl e \<Rightarrow> Inl e
             | Inr si \<Rightarrow>
                 if dlt (Fin clock2) stop_ts \<or> frame_count si = 0 then wait_exposure si stop_ts env
                 else Inr (Exposed, si)))"

record take_env =
  open_ok :: bool
  clock_start :: rat
  clock_stop :: rat
  polls :: "(bitmap list \<times> rat \<times> bitmap list \<times> rat) list"

definition takeImage_expose ::
  "tau_server_info \<Rightarrow> take_env \<Rightarrow> fault + (exposure \<times> tau_server_info \<times> string option)" where
  "takeImage_expose si env =
     (if \<not> open_ok env then
        Inr (Unstarted, si,
             Some (fail_reply IMAGE_CMD ''Unable to save temporary file on the camera server''))
      else if dlt (etime si) MIN_ETIME \<or> dgt (etime si) MAX_ETIME then
        Inr (Unstarted, si, Some (fail_reply IMAGE_CMD ''Exposure time isn't set''))
      else
        (case stack_data si of
           None \<Rightarrow> Inl NullCopy
         | Some stack \<Rightarrow>
             (let si = si\<lparr>frame_count := 0,
                          stack_data := Some (replicate (width si * height si) 0),
                          exp_start_ts := clock_start env\<rparr>;
                  stop_ts = dadd (Fin (clock_stop env)) (etime si)
              in case wait_exposure si stop_ts (polls env) of
                   Inl e \<Rightarrow> Inl e
                 | Inr (Timeout, si) \<Rightarrow>
                     Inr (Timeout, si, Some (fail_reply IMAGE_CMD ''Exposure timeout''))
                 | Inr (r, si) \<Rightarrow> Inr (r, si, None))))"

lemma callback_with_start_ts:
  "callback_with body si bm = Inr si' \<Longrightarrow> exp_start_ts si' = exp_start_ts si"
  by (auto simp: callback_with_def Let_def split: if_splits sum.splits option.splits)

lemma deliver_start_ts:
  "deliver callbackTauImage si frames = Inr si' \<Longrightarrow> exp_start_ts si' = exp_start_ts si"
proof (induction frames arbitrary: si)
  case Nil
  then show ?case by simp
next
  case (Cons bm frames)
  then show ?case
    by (auto simp: callbackTauImage_def split: sum.splits dest!: callback_with_start_ts)
qed

lemma wait_exposure_timeout:
  "wait_exposure si stop_ts env = Inr (Timeout, si') \<Longrightarrow>
     frame_count si' = 0 \<and> exp_start_ts si' = exp_start_ts si"
proof (induction si stop_ts env rule: wait_exposure.induct)
  case (1 si stop_ts)
  then show ?case by simp
next
  case (2 si stop_ts frames clock1 frames' clock2 env)
  from "2.prems" obtain s1 where d1: "deliver callbackTauImage si frames = Inr s1"
    by (cases "deliver callbackTauImage si frames") simp_all
  have t1: "exp_start_ts s1 = exp_start_ts si" by (rule deliver_start_ts[OF d1])
  show ?case
  proof (cases "frame_count s1 = 0 \<and>
      dlt (dadd (Fin (exp_start_ts s1)) EXPOSE_TIMEOUT) (Fin clock1)")
    case True
    then have "si' = s1" using "2.prems" d1 by simp
    then show ?thesis using True t1 by simp
  next
    case False
    from "2.prems" d1 False obtain s2 where d2: "deliver callbackTauImage s1 frames' = Inr s2"
      by (cases "deliver callbackTauImage s1 frames'") simp_all
    have t2: "exp_start_ts s2 = exp_start_ts s1" by (rule deliver_start_ts[OF d2])
    have c: "dlt (Fin clock2) stop_ts \<or> frame_count s2 = 0"
      using "2.prems" d1 d2 False by (auto simp del: deliver.simps split: if_splits)
    then have w: "wait_exposure s2 stop_ts env = Inr (Timeout, si')"
      using "2.prems" d1 d2 False by simp
    have "frame_count si' = 0 \<and> exp_start_ts si' = exp_start_ts s2"
      by (rule "2.IH"[OF d1 False d2 c w])
    then show ?thesis using t1 t2 by simp
  qed
qed

text \<open>
  Claim C4.  With exposure time 1 the image command starts an exposure at clock reading
  100; no frame arrives, and at the second turn of the loop the clock reads 106, past
  the margin of 5.  The command ends with the fail reply \<^verbatim>\<open>! IMAGE "Exposure timeout"\<close>
  and frame count 0, but the exposure-start time stamp is still 100: the branch returns
  without the reset to 0 that the other ends of \<^verbatim>\<open>takeImage\<close> make.
\<close>

theorem takeImage_timeout_keeps_start_ts:
  "takeImage_expose
     \<lparr>tgr_gain_mode = None, gain = GAIN_AUTO, etime = Fin 1, width = 2, height = 1,
      stack_data = Some [7, 9], frame_count = 3, exp_start_ts = 0\<rparr>
     \<lparr>open_ok = True, clock_start = 100, clock_stop = 100,
      polls = [([], 101, [], 101), ([], 106, [], 106)]\<rparr> =
   Inr (Timeout,
        \<lparr>tgr_gain_mode = None, gain = GAIN_AUTO, etime = Fin 1, width = 2, height = 1,
         stack_data = Some [0, 0], frame_count = 0, exp_start_ts = 100\<rparr>,
        Some (fail_reply IMAGE_CMD ''Exposure timeout''))"
  by code_simp

text \<open>
  Whenever the exposure phase ends on the timeout, the reply is the timeout diagnostic,
  the frame count is 0 and the exposure-start time stamp is the clock reading taken when
  the exposure was started.
\<close>

theorem takeImage_timeout_state:
  assumes "takeImage_expose si env = Inr (Timeout, si', reply)"
  shows "reply = Some (fail_reply IMAGE_CMD ''Exposure timeout'') \<and> frame_count si' = 0 \<and>
         exp_start_ts si' = clock_start env"
  using assms
  by (auto simp: takeImage_expose_def Let_def
      split: if_splits option.splits sum.splits exposure.splits dest!: wait_exposure_timeout)

theorem takeImage_timeout_state_witness:
  "Some (fail_reply IMAGE_CMD ''Exposure timeout'') = Some (fail_reply IMAGE_CMD ''Exposure timeout'') \<and>
   frame_count \<lparr>tgr_gain_mode = None, gain = GAIN_AUTO, etime = Fin 1, width = 2, height = 1,
         stack_data = Some [0, 0], frame_count = 0, exp_start_ts = 100\<rparr> = 0 \<and>
   exp_start_ts \<lparr>tgr_gain_mode = None, gain = GAIN_AUTO, etime = Fin 1, width = 2, height = 1,
         stack_data = Some [0, 0], frame_count = 0, exp_start_ts = (100::rat)\<rparr> =
   clock_start \<lparr>open_ok = True, clock_start = 100, clock_stop = 100,
      polls = [([], 101, [], 101), ([], 106, [], 106)]\<rparr>"
proof -
  have e: "takeImage_expose
     \<lparr>tgr_gain_mode = None, gain = GAIN_AUTO, etime = Fin 1, width = 2, height = 1,
      stack_data = Some [7, 9], frame_count = 3, exp_start_ts = 0\<rparr>
     \<lparr>open_ok = True, clock_start = 100, clock_stop = 100,
      polls = [([], 101, [], 101), ([], 106, [], 106)]\<rparr> =
   Inr (Timeout,
        \<lparr>tgr_gain_mode = None, gain = GAIN_AUTO, etime = Fin 1, width = 2, height = 1,
         stack_data = Some [0, 0], frame_count = 0, exp_start_ts = 100\<rparr>,
        Some (fail_reply IMAGE_CMD ''Exposure timeout''))"
    by code_simp
  show ?thesis by (rule takeImage_timeout_state[OF e])
qed

section \<open>What an accepted exposure time does to the session\<close>

text \<open>
  An accepted \<^verbatim>\<open>ETIME\<close> on the Tau server stores the value, sets the frame count and the
  exposure-start time stamp to 0, frees the client's image buffer and clears the pointer
  to it, writes the value to the registry and replies \<^verbatim>\<open>. ETIME\<close>.  The three fields that
  arm the binary stream are not touched: on a client whose stream is armed and not yet
  at its end, the next call of \<^verbatim>\<open>client_send_binary\<close> copies from the null pointer.
\<close>

theorem tau_etime_effects:
  assumes "strtod a = Some v" "\<not> dlt v MIN_ETIME" "\<not> dgt v MAX_ETIME"
    and "set_option (image_data c) \<subseteq> dom h" "connected reg"
  shows "tau_etime strtod ts h c reg [a] =
           Inr (ts\<lparr>etime := v, frame_count := 0, exp_start_ts := 0\<rparr>,
                h |` (- set_option (image_data c)),
                c\<lparr>image_data := None\<rparr>,
                reg\<lparr>entries := (entries reg)(TAU_SS_ETIME \<mapsto> printf_d 3 v)\<rparr>,
                ''. ETIME'') \<and>
         (send_data c \<noteq> 0 \<and> data_count c \<noteq> total_count c \<longrightarrow>
            client_send_binary (h |` (- set_option (image_data c))) (c\<lparr>image_data := None\<rparr>) len =
              Inl NullCopy)"
proof -
  have f: "free_opt h (image_data c) = Inr (h |` (- set_option (image_data c)))"
    using assms(4)
    by (cases "image_data c")
       (auto simp: free_opt_def free_block_def restrict_complement_singleton_eq)
  have r: "snd (ssPutString reg TAU_SS_ETIME (printf_d 3 v)) =
             reg\<lparr>entries := (entries reg)(TAU_SS_ETIME \<mapsto> printf_d 3 v)\<rparr>"
    using assms(5) by (simp add: ssPutString_def)
  have s: "send_data c \<noteq> 0 \<and> data_count c \<noteq> total_count c \<longrightarrow>
            client_send_binary (h |` (- set_option (image_data c))) (c\<lparr>image_data := None\<rparr>) len =
              Inl NullCopy"
    by (simp add: client_send_binary_def memcpy_from_def Let_def)
  show ?thesis
    using assms(1,2,3) f r s by (simp add: tau_etime_def ETIME_CMD_def)
qed

theorem tau_etime_effects_witness:
  "tau_etime (\<lambda>s. if s = ''1'' then Some (Fin 1) else None)
     \<lparr>tgr_gain_mode = None, gain = GAIN_AUTO, etime = Fin 5, width = 2, height = 1,
      stack_data = Some [20, 50], frame_count = 4, exp_start_ts = 100\<rparr>
     [7 \<mapsto> [1, 2, 3, 4]]
     \<lparr>hostname = None, send_data = 1, data_count = 2, total_count = 4, image_data = Some 7\<rparr>
     \<lparr>connected = True, entries = Map.empty\<rparr> [''1''] =
   Inr (\<lparr>tgr_gain_mode = None, gain = GAIN_AUTO, etime = Fin 1, width = 2, height = 1,
        stack_data = Some [20, 50], frame_count = 0, exp_start_ts = 0\<rparr>,
        Map.empty,
        \<lparr>hostname = None, send_data = 1, data_count = 2, total_count = 4, image_data = None\<rparr>,
        \<lparr>connected = True, entries = [TAU_SS_ETIME \<mapsto> ''1.000'']\<rparr>,
        ''. ETIME'') \<and>
   client_send_binary Map.empty
     \<lparr>hostname = None, send_data = 1, data_count = 2, total_count = 4, image_data = None\<rparr> 5000 =
   Inl NullCopy"
proof -
  have h: "[7 \<mapsto> [1, 2, 3, 4]] |` (- set_option (Some (7::addr))) = (Map.empty :: heap)"
    by (simp add: restrict_complement_singleton_eq)
  show ?thesis
    using tau_etime_effects[of "\<lambda>s. if s = ''1'' then Some (Fin 1) else None" "''1''" "Fin 1"
        "\<lparr>hostname = None, send_data = 1, data_count = 2, total_count = 4, image_data = Some 7\<rparr>"
        "[7 \<mapsto> [1, 2, 3, 4]]" "\<lparr>connected = True, entries = Map.empty\<rparr>"
        "\<lparr>tgr_gain_mode = None, gain = GAIN_AUTO, etime = Fin 5, width = 2, height = 1,
          stack_data = Some [20, 50], frame_count = 4, exp_start_ts = 100\<rparr>" 5000]
    by (simp add: h min_etime_value max_etime_value dgt_def printf_examples)
qed

text \<open>
  Claim C10.  A client with an encoded image of three bytes pending (armed, nothing
  streamed yet) sends \<^verbatim>\<open>ETIME 2.5\<close> while the session is at frame count 4 in an exposure
  started at 100.  The exposure time becomes 2.5, frame count and exposure-start time
  stamp become 0, the image block is freed, the registry holds \<^verbatim>\<open>2.500\<close> and the reply is
  \<^verbatim>\<open>. ETIME\<close>; the stream stays armed with 3 bytes to send, and the next call of the
  send hook faults on the null image pointer.
\<close>

theorem tau_etime_leaves_stream_armed:
  "tau_etime (\<lambda>s. if s = ''2.5'' then Some (Fin (5 / 2)) else None)
     \<lparr>tgr_gain_mode = None, gain = GAIN_AUTO, etime = Fin 1, width = 2, height = 1,
      stack_data = Some [20, 50], frame_count = 4, exp_start_ts = 100\<rparr>
     [2 \<mapsto> [83, 73, 77]]
     \<lparr>hostname = None, send_data = 1, data_count = 0, total_count = 3, image_data = Some 2\<rparr>
     \<lparr>connected = True, entries = Map.empty\<rparr> [''2.5''] =
   Inr (\<lparr>tgr_gain_mode = None, gain = GAIN_AUTO, etime = Fin (5 / 2), width = 2, height = 1,
        stack_data = Some [20, 50], frame_count = 0, exp_start_ts = 0\<rparr>,
        Map.empty,
        \<lparr>hostname = None, send_data = 1, data_count = 0, total_count = 3, image_data = None\<rparr>,
        \<lparr>connected = True, entries = [TAU_SS_ETIME \<mapsto> ''2.500'']\<rparr>,
        ''. ETIME'') \<and>
   client_send_binary Map.empty
     \<lparr>hostname = None, send_data = 1, data_count = 0, total_count = 3, image_data = None\<rparr> 5000 =
   Inl NullCopy"
proof -
  have mm: "\<not> (dlt (Fin (5 / 2)) MIN_ETIME \<or> dgt (Fin (5 / 2)) MAX_ETIME)"
    by (simp add: min_etime_value max_etime_value dgt_def)
  show ?thesis
    using mm
    by (simp add: tau_etime_def free_opt_def free_block_def ssPutString_def ETIME_CMD_def
        printf_examples client_send_binary_def memcpy_from_def SEND_BUF_SIZE_def)
qed

end
